theory Spec2Isabelle
  imports Complex_Main
begin

section \<open>Data model\<close>

text \<open>
  The embedding follows \<^verbatim>\<open>src/react-app/components/PuzzleGenerator.tsx\<close>, function
  \<^verbatim>\<open>generatePuzzles\<close> and the two path builders nested in it.

  JavaScript numbers are modelled as follows.  The slider values \<^verbatim>\<open>columns\<close>,
  \<^verbatim>\<open>rows\<close> and \<^verbatim>\<open>missingPercentage\<close> (results of \<^verbatim>\<open>parseInt\<close> on range inputs), loop
  counters and pixel sizes of the image are natural numbers; piece indices are integers.
  All other numbers (coordinates, seeds, random values) are real numbers.  The
  arithmetic that decides the size of the canvases, the cell rectangles and the branches
  taken on them is rounded as IEEE-754 binary64 rounds it, with \<open>binary64\<close> below: the
  scaling of lines 109 to 111, the piece size of lines 127 and 128, the cell origin
  \<^verbatim>\<open>col * pieceWidth\<close> and \<^verbatim>\<open>row * pieceHeight\<close>, the sums in the tests \<^verbatim>\<open>x + w < width\<close> and
  \<^verbatim>\<open>y + h < height\<close>, and the bounds of the clamp of lines 217 and 218.  The remaining
  arithmetic, which only computes coordinates handed to the canvas context, and the sine
  of \<^verbatim>\<open>random\<close> are exact.
\<close>

datatype PieceStyle = Classic | Abstract

datatype OutputQuality = Fast | Standard | High | Original

record PuzzleSettings =
  columns :: nat
  rows :: nat
  missingPercentage :: nat
  pieceStyle :: PieceStyle
  borderColor :: string
  outputQuality :: OutputQuality

text \<open>
  The edge flags of one cell, \<^verbatim>\<open>{top, right, bottom, left}\<close>.  The fields carry the
  suffix \<open>E\<close> because \<open>top\<close> is a constant of HOL.
\<close>

record EdgeFlags =
  topE :: bool
  rightE :: bool
  bottomE :: bool
  leftE :: bool

type_synonym pattern = "EdgeFlags list list"

subsection \<open>The global random source\<close>

text \<open>
  \<^verbatim>\<open>Math.random()\<close> is a stream of numbers together with the position of the next
  draw; every call returns the number at the position and advances it.
\<close>

type_synonym rng = "(nat \<Rightarrow> real) \<times> nat"

definition mathRandom :: "rng \<Rightarrow> real \<times> rng" where
  "mathRandom g = (fst g (snd g), (fst g, Suc (snd g)))"

section \<open>Rounding to binary64\<close>

text \<open>
  Rounding of a real number to the nearest integer, ties to the even one.
\<close>

definition roundEven :: "real \<Rightarrow> int" where
  "roundEven x =
     (let n = \<lfloor>x\<rfloor>; d = x - of_int n
      in if d < 1 / 2 then n else if 1 / 2 < d then n + 1 else if even n then n else n + 1)"

text \<open>
  The binary exponent of a positive number: \<open>2 powi expo x \<le> x < 2 powi (expo x + 1)\<close>,
  found by doubling or halving \<open>x\<close> until it lies in \<open>[1, 2)\<close>.
\<close>

function expo :: "real \<Rightarrow> int" where
  "expo x =
     (if 0 < x \<and> x < 1 then expo (2 * x) - 1
      else if 2 \<le> x then expo (x / 2) + 1
      else 0)"
  by pat_completeness auto
termination
proof (relation "measure (\<lambda>x. nat \<bar>\<lfloor>log 2 x\<rfloor>\<bar>)")
  show "wf (measure (\<lambda>x::real. nat \<bar>\<lfloor>log 2 x\<rfloor>\<bar>))"
    by simp
next
  fix x :: real
  assume a: "0 < x \<and> x < 1"
  have 1: "log 2 (2 * x) = 1 + log 2 x"
    using a by (simp add: log_mult_pos)
  have 2: "log 2 x < 0"
    using a by simp
  have 3: "\<lfloor>log 2 x\<rfloor> < 0"
    using 2 by (simp add: floor_less_iff)
  have 4: "\<lfloor>log 2 (2 * x)\<rfloor> = 1 + \<lfloor>log 2 x\<rfloor>"
    unfolding 1 by simp
  show "(2 * x, x) \<in> measure (\<lambda>x. nat \<bar>\<lfloor>log 2 x\<rfloor>\<bar>)"
    unfolding in_measure 4 using 3 by linarith
next
  fix x :: real
  assume a: "\<not> (0 < x \<and> x < 1)" "2 \<le> x"
  have 1: "log 2 (x / 2) = log 2 x - 1"
    using a by (simp add: log_divide_pos)
  have 2: "1 \<le> log 2 x"
    using a by (simp add: le_log_iff)
  have 3: "1 \<le> \<lfloor>log 2 x\<rfloor>"
    using 2 by (simp add: le_floor_iff)
  have 4: "\<lfloor>log 2 (x / 2)\<rfloor> = \<lfloor>log 2 x\<rfloor> - 1"
    unfolding 1 by simp
  show "(x / 2, x) \<in> measure (\<lambda>x. nat \<bar>\<lfloor>log 2 x\<rfloor>\<bar>)"
    unfolding in_measure 4 using 3 by linarith
qed

text \<open>
  The binary64 number nearest to a real number (round to nearest, ties to even, the
  rounding of every arithmetic operation of JavaScript): the magnitude is rounded to a
  multiple of \<open>2 powi e\<close>, where \<open>e\<close> leaves 53 significant bits and is at least
  \<open>- 1074\<close>, the exponent of the subnormal numbers.  Overflow to \<^verbatim>\<open>Infinity\<close> (a magnitude
  of \<open>2 ^ 1024\<close> or more) is not modelled: the operands below are products and quotients
  of image sizes, grid sizes and the maxima of the quality tiers, far below that
  magnitude.
\<close>

definition binary64 :: "real \<Rightarrow> real" where
  "binary64 x =
     (let e = max (expo \<bar>x\<bar>) (- 1022) - 52
      in sgn x * (real_of_int (roundEven (\<bar>x\<bar> / 2 powi e)) * 2 powi e))"

section \<open>The edge pattern of the classic style\<close>

text \<open>
  \<^verbatim>\<open>cond ? false : Math.random() > 0.5\<close>: the random source is consulted only when the
  edge is not forced.
\<close>

definition flagOrRandom :: "bool \<Rightarrow> rng \<Rightarrow> bool \<times> rng" where
  "flagOrRandom forced g =
     (if forced then (False, g)
      else (let (r, g') = mathRandom g in (r > 0.5, g')))"

text \<open>
  The object literal of lines 137 to 142; its four fields are evaluated in the order
  top, right, bottom, left.  Inside the loops \<open>col < cls\<close> and \<open>row < rws\<close>, so the
  subtractions \<open>cls - 1\<close> and \<open>rws - 1\<close> are exact on natural numbers.
\<close>

definition initCell :: "nat \<Rightarrow> nat \<Rightarrow> nat \<Rightarrow> nat \<Rightarrow> rng \<Rightarrow> EdgeFlags \<times> rng" where
  "initCell rws cls row col g0 =
     (let (t, g1) = flagOrRandom (row = 0) g0;
          (r, g2) = flagOrRandom (col = cls - 1) g1;
          (b, g3) = flagOrRandom (row = rws - 1) g2;
          (l, g4) = flagOrRandom (col = 0) g3
      in (\<lparr>topE = t, rightE = r, bottomE = b, leftE = l\<rparr>, g4))"

text \<open>
  The inner loop of the initialisation.  The assignment \<^verbatim>\<open>piecePattern[row][col] = ...\<close>
  writes at the index that equals the current length of the row (the row starts empty
  and \<open>col\<close> counts from 0), which in JavaScript appends.
\<close>

function initRow ::
  "nat \<Rightarrow> nat \<Rightarrow> nat \<Rightarrow> nat \<Rightarrow> EdgeFlags list \<Rightarrow> rng \<Rightarrow> EdgeFlags list \<times> rng" where
  "initRow rws cls row col cells g =
     (if col < cls
      then (let (c, g') = initCell rws cls row col g
            in initRow rws cls row (col + 1) (cells @ [c]) g')
      else (cells, g))"
  by pat_completeness auto
termination
  by (relation "measure (\<lambda>(rws, cls, row, col, cells, g). cls - col)") auto

function initPattern ::
  "nat \<Rightarrow> nat \<Rightarrow> nat \<Rightarrow> pattern \<Rightarrow> rng \<Rightarrow> pattern \<times> rng" where
  "initPattern rws cls row p g =
     (if row < rws
      then (let (cells, g') = initRow rws cls row 0 [] g
            in initPattern rws cls (row + 1) (p @ [cells]) g')
      else (p, g))"
  by pat_completeness auto
termination
  by (relation "measure (\<lambda>(rws, cls, row, p, g). rws - row)") auto

text \<open>
  The two writes of the second pass, \<^verbatim>\<open>piecePattern[row][col + 1].left = v\<close> and
  \<^verbatim>\<open>piecePattern[row + 1][col].top = v\<close>, as updates of the nested list.
\<close>

definition setLeft :: "pattern \<Rightarrow> nat \<Rightarrow> nat \<Rightarrow> bool \<Rightarrow> pattern" where
  "setLeft p r c v = p[r := (p ! r)[c := (p ! r ! c)\<lparr>leftE := v\<rparr>]]"

definition setTop :: "pattern \<Rightarrow> nat \<Rightarrow> nat \<Rightarrow> bool \<Rightarrow> pattern" where
  "setTop p r c v = p[r := (p ! r)[c := (p ! r ! c)\<lparr>topE := v\<rparr>]]"

text \<open>
  The body of the second pass (lines 149 to 159).  \<^verbatim>\<open>piece\<close> refers to the cell
  \<open>(row, col)\<close>, which neither write changes, so reading it once is the same as
  reading it through the reference.
\<close>

definition propagateCell :: "nat \<Rightarrow> nat \<Rightarrow> nat \<Rightarrow> nat \<Rightarrow> pattern \<Rightarrow> pattern" where
  "propagateCell rws cls row col p =
     (let piece = p ! row ! col;
          p1 = (if col < cls - 1 then setLeft p row (col + 1) (\<not> rightE piece) else p);
          p2 = (if row < rws - 1 then setTop p1 (row + 1) col (\<not> bottomE piece) else p1)
      in p2)"

function propagateRow :: "nat \<Rightarrow> nat \<Rightarrow> nat \<Rightarrow> nat \<Rightarrow> pattern \<Rightarrow> pattern" where
  "propagateRow rws cls row col p =
     (if col < cls
      then propagateRow rws cls row (col + 1) (propagateCell rws cls row col p)
      else p)"
  by pat_completeness auto
termination
  by (relation "measure (\<lambda>(rws, cls, row, col, p). cls - col)") auto

function propagatePattern :: "nat \<Rightarrow> nat \<Rightarrow> nat \<Rightarrow> pattern \<Rightarrow> pattern" where
  "propagatePattern rws cls row p =
     (if row < rws
      then propagatePattern rws cls (row + 1) (propagateRow rws cls row 0 p)
      else p)"
  by pat_completeness auto
termination
  by (relation "measure (\<lambda>(rws, cls, row, p). rws - row)") auto

text \<open>Lines 131 to 161: both passes, from the empty array.\<close>

definition buildPattern :: "nat \<Rightarrow> nat \<Rightarrow> rng \<Rightarrow> pattern \<times> rng" where
  "buildPattern rws cls g =
     (let (p, g') = initPattern rws cls 0 [] g
      in (propagatePattern rws cls 0 p, g'))"

subsection \<open>Predicates used in the proofs about the pattern\<close>

text \<open>What the first pass forces on the cell at \<open>(row, col)\<close>.\<close>

definition boundaryFalse :: "nat \<Rightarrow> nat \<Rightarrow> nat \<Rightarrow> nat \<Rightarrow> EdgeFlags \<Rightarrow> bool" where
  "boundaryFalse rws cls row col e \<longleftrightarrow>
     (row = 0 \<longrightarrow> \<not> topE e) \<and> (col = cls - 1 \<longrightarrow> \<not> rightE e) \<and>
     (row = rws - 1 \<longrightarrow> \<not> bottomE e) \<and> (col = 0 \<longrightarrow> \<not> leftE e)"

definition wellShaped :: "nat \<Rightarrow> nat \<Rightarrow> pattern \<Rightarrow> bool" where
  "wellShaped rws cls p \<longleftrightarrow> length p = rws \<and> (\<forall>r<rws. length (p ! r) = cls)"

text \<open>The first \<open>n\<close> rows are complete and carry the forced flags.\<close>

definition allBoundaryFalse :: "nat \<Rightarrow> nat \<Rightarrow> nat \<Rightarrow> pattern \<Rightarrow> bool" where
  "allBoundaryFalse rws cls n p \<longleftrightarrow>
     (\<forall>r<n. length (p ! r) = cls \<and> (\<forall>c<cls. boundaryFalse rws cls r c (p ! r ! c)))"

text \<open>The cells the second pass has visited when it stands at \<open>(row, col)\<close>.\<close>

definition doneBefore :: "nat \<Rightarrow> nat \<Rightarrow> nat \<Rightarrow> nat \<Rightarrow> bool" where
  "doneBefore row col r c \<longleftrightarrow> r < row \<or> (r = row \<and> c < col)"

text \<open>
  The state of the second pass in terms of the pattern \<open>p0\<close> it started from: right and
  bottom flags are never written; a left or top flag is the negation of the neighbour's
  flag once the neighbour has been visited.
\<close>

definition propInv ::
  "nat \<Rightarrow> nat \<Rightarrow> pattern \<Rightarrow> (nat \<Rightarrow> nat \<Rightarrow> bool) \<Rightarrow> pattern \<Rightarrow> bool" where
  "propInv rws cls p0 dn p \<longleftrightarrow>
     wellShaped rws cls p \<and>
     (\<forall>r<rws. \<forall>c<cls.
        rightE (p ! r ! c) = rightE (p0 ! r ! c) \<and>
        bottomE (p ! r ! c) = bottomE (p0 ! r ! c) \<and>
        leftE (p ! r ! c) =
          (if 0 < c \<and> dn r (c - 1) then \<not> rightE (p0 ! r ! (c - 1)) else leftE (p0 ! r ! c)) \<and>
        topE (p ! r ! c) =
          (if 0 < r \<and> dn (r - 1) c then \<not> bottomE (p0 ! (r - 1) ! c) else topE (p0 ! r ! c)))"

text \<open>The property of the finished pattern: neighbours disagree, the border is false.\<close>

definition consistent :: "nat \<Rightarrow> nat \<Rightarrow> pattern \<Rightarrow> bool" where
  "consistent rws cls p \<longleftrightarrow>
     (\<forall>r<rws. \<forall>c<cls.
        (c + 1 < cls \<longrightarrow> rightE (p ! r ! c) = (\<not> leftE (p ! r ! (c + 1)))) \<and>
        (r + 1 < rws \<longrightarrow> bottomE (p ! r ! c) = (\<not> topE (p ! (r + 1) ! c))) \<and>
        boundaryFalse rws cls r c (p ! r ! c))"

section \<open>The canvas\<close>

text \<open>
  A decoded image: its pixel size and, standing for its content, its source.
\<close>

record SourceImage =
  imgWidth :: nat
  imgHeight :: nat
  imgSrc :: string

text \<open>
  A 2D context is modelled by the calls made on it, in order: a raster is determined
  by its size and this list.  Every drawing function of the source returns the calls it
  makes.
\<close>

datatype CanvasCmd =
    DrawImage SourceImage real real real real
  | BeginPath
  | MoveTo real real
  | LineTo real real
  | QuadraticCurveTo real real real real
  | ClosePath
  | Stroke
  | Fill
  | Save
  | Restore
  | GlobalCompositeOperation string
  | StrokeStyle string
  | LineWidth real
  | LineCap string
  | LineJoin string

record Canvas =
  canvasWidth :: nat
  canvasHeight :: nat
  commands :: "CanvasCmd list"

text \<open>
  Assigning a number to \<^verbatim>\<open>canvas.width\<close> converts it to an unsigned integer by
  truncation.
\<close>

definition canvasSize :: "real \<Rightarrow> nat" where
  "canvasSize v = nat \<lfloor>v\<rfloor>"

section \<open>Quality tiers and scaling\<close>

text \<open>
  The table \<^verbatim>\<open>qualitySettings\<close>; \<open>None\<close> is the entry with both maxima
  \<^verbatim>\<open>Infinity\<close>.
\<close>

fun qualitySettings :: "OutputQuality \<Rightarrow> (real \<times> real) option" where
  "qualitySettings Fast = Some (800, 600)"
| "qualitySettings Standard = Some (1280, 720)"
| "qualitySettings High = Some (1920, 1080)"
| "qualitySettings Original = None"

text \<open>
  \<^verbatim>\<open>Math.min(maxWidth / width, maxHeight / height)\<close>; each quotient is rounded, the
  minimum of two numbers is exact.  In JavaScript a positive number divided by 0 is
  \<^verbatim>\<open>Infinity\<close>, and the minimum is then the other quotient; in HOL \<open>a / 0 = 0\<close>, so the
  two cases are written out.
\<close>

definition minQuotient :: "real \<Rightarrow> real \<Rightarrow> real \<Rightarrow> real \<Rightarrow> real" where
  "minQuotient maxWidth width maxHeight height =
     (if width = 0 then binary64 (maxHeight / height)
      else if height = 0 then binary64 (maxWidth / width)
      else min (binary64 (maxWidth / width)) (binary64 (maxHeight / height)))"

text \<open>
  Lines 104 to 112: the variables \<^verbatim>\<open>width\<close> and \<^verbatim>\<open>height\<close>, from which both canvases take
  their size.  The two products of lines 110 and 111 are rounded.
\<close>

definition scaleDimensions :: "OutputQuality \<Rightarrow> real \<Rightarrow> real \<Rightarrow> real \<times> real" where
  "scaleDimensions quality width height =
     (case qualitySettings quality of
        None \<Rightarrow> (width, height)
      | Some (maxWidth, maxHeight) \<Rightarrow>
          (if quality \<noteq> Original \<and> (width > maxWidth \<or> height > maxHeight)
           then (let scale = minQuotient maxWidth width maxHeight height
                 in (binary64 (width * scale), binary64 (height * scale)))
           else (width, height)))"

section \<open>The abstract piece shape\<close>

text \<open>
  The closure \<^verbatim>\<open>random\<close> of \<^verbatim>\<open>drawAbstractPuzzlePiece\<close> (lines 172 to 175), with the
  seed it captures as an argument.  The name carries a prime because \<open>random\<close> is a
  constant of HOL.
\<close>

definition random' :: "real \<Rightarrow> nat \<Rightarrow> real" where
  "random' seed index =
     (let a = sin (seed * 9.898 + real index * 78.233) * 43758.5453
      in a - of_int \<lfloor>a\<rfloor>)"

text \<open>
  The bounds of the clamp of lines 217 and 218, \<^verbatim>\<open>x - w * 0.1\<close> and \<^verbatim>\<open>x + w * 1.1\<close>, as
  the machine computes them: the literals are the binary64 numbers nearest to \<open>0.1\<close>
  and \<open>1.1\<close>, and the product and the sum are rounded.  \<^verbatim>\<open>Math.max\<close> and \<^verbatim>\<open>Math.min\<close>
  do not round.
\<close>

definition haloMin :: "real \<Rightarrow> real \<Rightarrow> real" where
  "haloMin x w = binary64 (x - binary64 (w * binary64 0.1))"

definition haloMax :: "real \<Rightarrow> real \<Rightarrow> real" where
  "haloMax x w = binary64 (x + binary64 (w * binary64 1.1))"

text \<open>The body of the first loop (lines 187 to 220): the point pushed for \<open>i\<close>.\<close>

definition abstractPoint ::
  "real \<Rightarrow> real \<Rightarrow> real \<Rightarrow> real \<Rightarrow> real \<Rightarrow> nat \<Rightarrow> nat \<Rightarrow> real \<times> real" where
  "abstractPoint x y w h seed segments i =
     (let padding = min w h * 0.1;
          t = real i / real segments;
          (px, py) =
            (if t < 0.25 then
               (let localT = t * 4
                in (x + padding + localT * (w - 2 * padding),
                    y + padding + (random' seed (i * 2) - 0.5) * h * 0.3))
             else if t < 0.5 then
               (let localT = (t - 0.25) * 4
                in (x + w - padding + (random' seed (i * 2) - 0.5) * w * 0.3,
                    y + padding + localT * (h - 2 * padding)))
             else if t < 0.75 then
               (let localT = (t - 0.5) * 4
                in (x + w - padding - localT * (w - 2 * padding),
                    y + h - padding + (random' seed (i * 2) - 0.5) * h * 0.3))
             else
               (let localT = (t - 0.75) * 4
                in (x + padding + (random' seed (i * 2) - 0.5) * w * 0.3,
                    y + h - padding - localT * (h - 2 * padding))));
          px1 = px + (random' seed (i * 3 + 10) - 0.5) * min w h * 0.15;
          py1 = py + (random' seed (i * 3 + 11) - 0.5) * min w h * 0.15;
          px2 = max (haloMin x w) (min (haloMax x w) px1);
          py2 = max (haloMin y h) (min (haloMax y h) py1)
      in (px2, py2))"

text \<open>
  The array \<^verbatim>\<open>points\<close> after the first loop.  Each iteration pushes one point that
  depends on \<open>i\<close> only, so the loop is a map over \<open>0, ..., segments - 1\<close>.
\<close>

definition abstractPoints :: "real \<Rightarrow> real \<Rightarrow> real \<Rightarrow> real \<Rightarrow> real \<Rightarrow> (real \<times> real) list" where
  "abstractPoints x y w h seed =
     (let segments = nat (12 + \<lfloor>random' seed 0 * 8\<rfloor>)
      in map (abstractPoint x y w h seed segments) [0..<segments])"

text \<open>
  The extra point of the second loop (lines 232 to 236), drawn before the line to
  \<open>points ! i\<close> when \<^verbatim>\<open>random(i * 5 + 20) > 0.7\<close>.
\<close>

definition kinkPoint ::
  "real \<Rightarrow> real \<Rightarrow> real \<Rightarrow> (real \<times> real) list \<Rightarrow> nat \<Rightarrow> real \<times> real" where
  "kinkPoint w h seed points i =
     (let currentPoint = points ! i;
          prevPoint = points ! (i - 1);
          midX = (fst currentPoint + fst prevPoint) / 2
                   + (random' seed (i * 4 + 15) - 0.5) * min w h * 0.1;
          midY = (snd currentPoint + snd prevPoint) / 2
                   + (random' seed (i * 4 + 16) - 0.5) * min w h * 0.1
      in (midX, midY))"

text \<open>The body of the second loop (lines 228 to 238), for \<open>1 \<le> i < length points\<close>.\<close>

definition abstractSegment ::
  "real \<Rightarrow> real \<Rightarrow> real \<Rightarrow> (real \<times> real) list \<Rightarrow> nat \<Rightarrow> CanvasCmd list" where
  "abstractSegment w h seed points i =
     (if random' seed (i * 5 + 20) > 0.7
      then [LineTo (fst (kinkPoint w h seed points i)) (snd (kinkPoint w h seed points i))]
      else [])
     @ [LineTo (fst (points ! i)) (snd (points ! i))]"

definition drawAbstractPuzzlePiece ::
  "real \<Rightarrow> real \<Rightarrow> real \<Rightarrow> real \<Rightarrow> real \<Rightarrow> CanvasCmd list" where
  "drawAbstractPuzzlePiece x y w h seed =
     (let points = abstractPoints x y w h seed
      in BeginPath #
         (if length points > 0
          then MoveTo (fst (points ! 0)) (snd (points ! 0)) #
               concat (map (abstractSegment w h seed points) [1..<length points]) @
               [ClosePath]
          else []))"

section \<open>The classic piece shape\<close>

text \<open>
  \<^verbatim>\<open>drawRealisticPuzzlePiece\<close> draws its four sides one after the other; each side is
  one of three alternatives (tab, blank, straight).  The sides are separate
  definitions here, in the order and with the conditions of the source.  \<open>width\<close> and
  \<open>height\<close> are the variables of \<^verbatim>\<open>generatePuzzles\<close> that the function captures.  The
  sums compared with them in the conditions of the right and the bottom side are
  rounded.
\<close>

definition topEdge :: "real \<Rightarrow> real \<Rightarrow> real \<Rightarrow> real \<Rightarrow> EdgeFlags \<Rightarrow> CanvasCmd list" where
  "topEdge x y w h tabs =
     (let tabSize = min w h * 0.2;
          tabRadius = tabSize * 0.8;
          midX = x + w / 2
      in if topE tabs \<and> y > 0 then
           [LineTo (midX - tabSize * 0.6) y,
            QuadraticCurveTo (midX - tabSize * 0.4) (y - tabRadius * 0.3)
              (midX - tabSize * 0.3) (y - tabRadius),
            QuadraticCurveTo midX (y - tabRadius * 1.2)
              (midX + tabSize * 0.3) (y - tabRadius),
            QuadraticCurveTo (midX + tabSize * 0.4) (y - tabRadius * 0.3)
              (midX + tabSize * 0.6) y,
            LineTo (x + w) y]
         else if \<not> topE tabs \<and> y > 0 then
           [LineTo (midX - tabSize * 0.6) y,
            QuadraticCurveTo (midX - tabSize * 0.4) (y + tabRadius * 0.3)
              (midX - tabSize * 0.3) (y + tabRadius),
            QuadraticCurveTo midX (y + tabRadius * 1.2)
              (midX + tabSize * 0.3) (y + tabRadius),
            QuadraticCurveTo (midX + tabSize * 0.4) (y + tabRadius * 0.3)
              (midX + tabSize * 0.6) y,
            LineTo (x + w) y]
         else [LineTo (x + w) y])"

definition rightEdge :: "real \<Rightarrow> real \<Rightarrow> real \<Rightarrow> real \<Rightarrow> real \<Rightarrow> EdgeFlags \<Rightarrow> CanvasCmd list" where
  "rightEdge width x y w h tabs =
     (let tabSize = min w h * 0.2;
          tabRadius = tabSize * 0.8;
          midY = y + h / 2
      in if rightE tabs \<and> binary64 (x + w) < width then
           [LineTo (x + w) (midY - tabSize * 0.6),
            QuadraticCurveTo (x + w + tabRadius * 0.3) (midY - tabSize * 0.4)
              (x + w + tabRadius) (midY - tabSize * 0.3),
            QuadraticCurveTo (x + w + tabRadius * 1.2) midY
              (x + w + tabRadius) (midY + tabSize * 0.3),
            QuadraticCurveTo (x + w + tabRadius * 0.3) (midY + tabSize * 0.4)
              (x + w) (midY + tabSize * 0.6),
            LineTo (x + w) (y + h)]
         else if \<not> rightE tabs \<and> binary64 (x + w) < width then
           [LineTo (x + w) (midY - tabSize * 0.6),
            QuadraticCurveTo (x + w - tabRadius * 0.3) (midY - tabSize * 0.4)
              (x + w - tabRadius) (midY - tabSize * 0.3),
            QuadraticCurveTo (x + w - tabRadius * 1.2) midY
              (x + w - tabRadius) (midY + tabSize * 0.3),
            QuadraticCurveTo (x + w - tabRadius * 0.3) (midY + tabSize * 0.4)
              (x + w) (midY + tabSize * 0.6),
            LineTo (x + w) (y + h)]
         else [LineTo (x + w) (y + h)])"

definition bottomEdge :: "real \<Rightarrow> real \<Rightarrow> real \<Rightarrow> real \<Rightarrow> real \<Rightarrow> EdgeFlags \<Rightarrow> CanvasCmd list" where
  "bottomEdge height x y w h tabs =
     (let tabSize = min w h * 0.2;
          tabRadius = tabSize * 0.8;
          midX = x + w / 2
      in if bottomE tabs \<and> binary64 (y + h) < height then
           [LineTo (midX + tabSize * 0.6) (y + h),
            QuadraticCurveTo (midX + tabSize * 0.4) (y + h + tabRadius * 0.3)
              (midX + tabSize * 0.3) (y + h + tabRadius),
            QuadraticCurveTo midX (y + h + tabRadius * 1.2)
              (midX - tabSize * 0.3) (y + h + tabRadius),
            QuadraticCurveTo (midX - tabSize * 0.4) (y + h + tabRadius * 0.3)
              (midX - tabSize * 0.6) (y + h),
            LineTo x (y + h)]
         else if \<not> bottomE tabs \<and> binary64 (y + h) < height then
           [LineTo (midX + tabSize * 0.6) (y + h),
            QuadraticCurveTo (midX + tabSize * 0.4) (y + h - tabRadius * 0.3)
              (midX + tabSize * 0.3) (y + h - tabRadius),
            QuadraticCurveTo midX (y + h - tabRadius * 1.2)
              (midX - tabSize * 0.3) (y + h - tabRadius),
            QuadraticCurveTo (midX - tabSize * 0.4) (y + h - tabRadius * 0.3)
              (midX - tabSize * 0.6) (y + h),
            LineTo x (y + h)]
         else [LineTo x (y + h)])"

definition leftEdge :: "real \<Rightarrow> real \<Rightarrow> real \<Rightarrow> real \<Rightarrow> EdgeFlags \<Rightarrow> CanvasCmd list" where
  "leftEdge x y w h tabs =
     (let tabSize = min w h * 0.2;
          tabRadius = tabSize * 0.8;
          midY = y + h / 2
      in if leftE tabs \<and> x > 0 then
           [LineTo x (midY + tabSize * 0.6),
            QuadraticCurveTo (x - tabRadius * 0.3) (midY + tabSize * 0.4)
              (x - tabRadius) (midY + tabSize * 0.3),
            QuadraticCurveTo (x - tabRadius * 1.2) midY
              (x - tabRadius) (midY - tabSize * 0.3),
            QuadraticCurveTo (x - tabRadius * 0.3) (midY - tabSize * 0.4)
              x (midY - tabSize * 0.6),
            LineTo x y]
         else if \<not> leftE tabs \<and> x > 0 then
           [LineTo x (midY + tabSize * 0.6),
            QuadraticCurveTo (x + tabRadius * 0.3) (midY + tabSize * 0.4)
              (x + tabRadius) (midY + tabSize * 0.3),
            QuadraticCurveTo (x + tabRadius * 1.2) midY
              (x + tabRadius) (midY - tabSize * 0.3),
            QuadraticCurveTo (x + tabRadius * 0.3) (midY - tabSize * 0.4)
              x (midY - tabSize * 0.6),
            LineTo x y]
         else [LineTo x y])"

definition drawRealisticPuzzlePiece ::
  "real \<Rightarrow> real \<Rightarrow> real \<Rightarrow> real \<Rightarrow> real \<Rightarrow> real \<Rightarrow> EdgeFlags \<Rightarrow> CanvasCmd list" where
  "drawRealisticPuzzlePiece width height x y w h tabs =
     BeginPath # MoveTo x y #
     topEdge x y w h tabs @ rightEdge width x y w h tabs @
     bottomEdge height x y w h tabs @ leftEdge x y w h tabs @ [ClosePath]"

section \<open>Generation\<close>

text \<open>
  The set \<^verbatim>\<open>missingIndices\<close> is a list without repetitions in insertion order, the
  order in which \<^verbatim>\<open>forEach\<close> visits a JavaScript \<^verbatim>\<open>Set\<close>; its \<^verbatim>\<open>size\<close> is the length.
\<close>

definition setAdd :: "int list \<Rightarrow> int \<Rightarrow> int list" where
  "setAdd xs v = (if v \<in> set xs then xs else xs @ [v])"

text \<open>
  The loop of lines 368 to 370.  It need not end: a result \<open>None\<close> is a loop that runs
  forever.
\<close>

partial_function (option) fillMissing ::
  "nat \<Rightarrow> nat \<Rightarrow> int list \<Rightarrow> rng \<Rightarrow> (int list \<times> rng) option" where
  "fillMissing missingCount totalPieces missingIndices g =
     (if length missingIndices < missingCount
      then fillMissing missingCount totalPieces
             (setAdd missingIndices \<lfloor>fst (mathRandom g) * real totalPieces\<rfloor>)
             (snd (mathRandom g))
      else Some (missingIndices, g))"

text \<open>Lines 341 to 344 and 399 to 402: the stroke settings, the same on both contexts.\<close>

definition strokeSettings :: "PuzzleSettings \<Rightarrow> CanvasCmd list" where
  "strokeSettings settings =
     [StrokeStyle (borderColor settings), LineWidth 2, LineCap ''round'', LineJoin ''round'']"

text \<open>
  The body of the loops of lines 346 to 361 and 404 to 419, which are the same text on
  the two contexts: the outline of the piece at \<open>(row, col)\<close>, then \<^verbatim>\<open>stroke()\<close>.
\<close>

definition strokePiece ::
  "PuzzleSettings \<Rightarrow> real \<Rightarrow> real \<Rightarrow> real \<Rightarrow> real \<Rightarrow> real \<Rightarrow> pattern \<Rightarrow> nat \<Rightarrow> nat \<Rightarrow>
   CanvasCmd list" where
  "strokePiece settings width height pieceWidth pieceHeight usedShapeSeed piecePattern row col =
     (let x = binary64 (real col * pieceWidth);
          y = binary64 (real row * pieceHeight)
      in (if pieceStyle settings = Abstract
          then (let seed = usedShapeSeed + real row * real (columns settings) + real col + 1
                in drawAbstractPuzzlePiece x y pieceWidth pieceHeight seed)
          else (let tabs = piecePattern ! row ! col
                in drawRealisticPuzzlePiece width height x y pieceWidth pieceHeight tabs))
         @ [Stroke])"

text \<open>The two nested loops around it; they only append the calls of their body.\<close>

definition strokePieces ::
  "PuzzleSettings \<Rightarrow> real \<Rightarrow> real \<Rightarrow> real \<Rightarrow> real \<Rightarrow> real \<Rightarrow> pattern \<Rightarrow> CanvasCmd list" where
  "strokePieces settings width height pieceWidth pieceHeight usedShapeSeed piecePattern =
     concat (map (\<lambda>row.
       concat (map (\<lambda>col.
         strokePiece settings width height pieceWidth pieceHeight usedShapeSeed piecePattern
           row col)
         [0..<columns settings]))
       [0..<rows settings])"

text \<open>
  The callback of \<^verbatim>\<open>missingIndices.forEach\<close> (lines 377 to 395).  \<^verbatim>\<open>Math.floor(index /
  columns)\<close> and \<^verbatim>\<open>index % columns\<close> are \<open>div\<close> and \<open>mod\<close> for the indices the set can
  hold, which are not negative.
\<close>

definition cutPiece ::
  "PuzzleSettings \<Rightarrow> real \<Rightarrow> real \<Rightarrow> real \<Rightarrow> real \<Rightarrow> real \<Rightarrow> pattern \<Rightarrow> int \<Rightarrow>
   CanvasCmd list" where
  "cutPiece settings width height pieceWidth pieceHeight usedShapeSeed piecePattern index =
     (let row = nat (index div int (columns settings));
          col = nat (index mod int (columns settings));
          x = binary64 (real col * pieceWidth);
          y = binary64 (real row * pieceHeight)
      in [Save, GlobalCompositeOperation ''destination-out''] @
         (if pieceStyle settings = Abstract
          then (let seed = usedShapeSeed + real row * real (columns settings) + real col + 1
                in drawAbstractPuzzlePiece x y pieceWidth pieceHeight seed)
          else (let tabs = piecePattern ! row ! col
                in drawRealisticPuzzlePiece width height x y pieceWidth pieceHeight tabs))
         @ [Fill, Restore])"

record PieceStats =
  statTotal :: nat
  statMissing :: nat

text \<open>
  What one call leaves behind: the two canvases and the statistics it sets as state,
  and, for the properties below, its local variables \<^verbatim>\<open>piecePattern\<close> and
  \<^verbatim>\<open>missingIndices\<close>.
\<close>

record Generated =
  completeCanvas :: Canvas
  missingCanvas :: Canvas
  pieceStats :: PieceStats
  piecePattern :: pattern
  missingIndices :: "int list"

text \<open>
  \<^verbatim>\<open>currentShapeSeed || shapeSeed\<close>: the argument is optional, and an argument 0 counts
  as absent; \<open>shapeSeed\<close> is the state the callback captured.
\<close>

definition usedSeed :: "real \<Rightarrow> real option \<Rightarrow> real" where
  "usedSeed shapeSeed currentShapeSeed =
     (case currentShapeSeed of
        None \<Rightarrow> shapeSeed
      | Some s \<Rightarrow> if s = 0 then shapeSeed else s)"

text \<open>
  The callback of \<^verbatim>\<open>generatePuzzles\<close> (lines 92 to 423), run to its end.  The result is
  \<open>None\<close> when the loop that fills \<^verbatim>\<open>missingIndices\<close> does not end.  The source has no
  \<^verbatim>\<open>throw\<close> and no early return, so there is no other result.
\<close>

definition generatePuzzles ::
  "real \<Rightarrow> SourceImage \<Rightarrow> PuzzleSettings \<Rightarrow> real option \<Rightarrow> rng \<Rightarrow> (Generated \<times> rng) option" where
  "generatePuzzles shapeSeed img settings currentShapeSeed g0 =
     (let usedShapeSeed = usedSeed shapeSeed currentShapeSeed;
          (width, height) =
            scaleDimensions (outputQuality settings) (real (imgWidth img)) (real (imgHeight img));
          pieceWidth = binary64 (width / real (columns settings));
          pieceHeight = binary64 (height / real (rows settings));
          (pattern, g1) = buildPattern (rows settings) (columns settings) g0;
          strokes =
            strokePieces settings width height pieceWidth pieceHeight usedShapeSeed pattern;
          totalPieces = rows settings * columns settings;
          missingCount = totalPieces * missingPercentage settings div 100
      in case fillMissing missingCount totalPieces [] g1 of
           None \<Rightarrow> None
         | Some (missing, g2) \<Rightarrow>
             Some
               (\<lparr>completeCanvas =
                    \<lparr>canvasWidth = canvasSize width, canvasHeight = canvasSize height,
                     commands =
                       DrawImage img 0 0 width height # strokeSettings settings @ strokes\<rparr>,
                  missingCanvas =
                    \<lparr>canvasWidth = canvasSize width, canvasHeight = canvasSize height,
                     commands =
                       DrawImage img 0 0 width height #
                       concat (map (cutPiece settings width height pieceWidth pieceHeight
                                      usedShapeSeed pattern) missing) @
                       strokeSettings settings @ strokes\<rparr>,
                  pieceStats = \<lparr>statTotal = totalPieces, statMissing = missingCount\<rparr>,
                  piecePattern = pattern,
                  missingIndices = missing\<rparr>,
                g2))"


text \<open>Every draw of the random source is in \<open>[0, 1)\<close>, as \<^verbatim>\<open>Math.random()\<close> promises.\<close>

definition unitRange :: "rng \<Rightarrow> bool" where
  "unitRange g \<longleftrightarrow> (\<forall>k. 0 \<le> fst g k \<and> fst g k < 1)"

text \<open>The indices collected so far are different and lie in \<open>[0, totalPieces)\<close>.\<close>

definition missingOk :: "nat \<Rightarrow> nat \<Rightarrow> int list \<Rightarrow> bool" where
  "missingOk c t xs \<longleftrightarrow> distinct xs \<and> (\<forall>x\<in>set xs. 0 \<le> x \<and> x < int t)"

subsection \<open>Notions used in the properties of the scaling\<close>

text \<open>
  The factor of the scaling without any rounding, \<open>min (maxWidth / width) (maxHeight /
  height)\<close> as the specification words it, with the same treatment of a dimension 0 as
  \<open>minQuotient\<close>.  The proofs compare \<open>minQuotient\<close> with it.
\<close>

definition exactQuotient :: "real \<Rightarrow> real \<Rightarrow> real \<Rightarrow> real \<Rightarrow> real" where
  "exactQuotient maxWidth width maxHeight height =
     (if width = 0 then maxHeight / height
      else if height = 0 then maxWidth / width
      else min (maxWidth / width) (maxHeight / height))"

subsection \<open>Notions used in the properties of the abstract outline\<close>

text \<open>
  The points a path visits: the end points of its lines and the control and end points of
  its curves.
\<close>

fun cmdPoints :: "CanvasCmd \<Rightarrow> (real \<times> real) list" where
  "cmdPoints (MoveTo a b) = [(a, b)]"
| "cmdPoints (LineTo a b) = [(a, b)]"
| "cmdPoints (QuadraticCurveTo a b c d) = [(a, b), (c, d)]"
| "cmdPoints _ = []"

definition pathPoints :: "CanvasCmd list \<Rightarrow> (real \<times> real) list" where
  "pathPoints cmds = concat (map cmdPoints cmds)"

text \<open>
  The halo of a cell rectangle as the specification words it,
  \<open>[x - 0.1 * w, x + 1.1 * w] \<times> [y - 0.1 * h, y + 1.1 * h]\<close>.
\<close>

definition inHalo :: "real \<Rightarrow> real \<Rightarrow> real \<Rightarrow> real \<Rightarrow> real \<times> real \<Rightarrow> bool" where
  "inHalo x y w h p \<longleftrightarrow>
     x - 0.1 * w \<le> fst p \<and> fst p \<le> x + 1.1 * w \<and>
     y - 0.1 * h \<le> snd p \<and> snd p \<le> y + 1.1 * h"

text \<open>
  The rectangle the source clamps to: the same halo with the bounds the machine
  computes in lines 217 and 218.
\<close>

definition inClamp :: "real \<Rightarrow> real \<Rightarrow> real \<Rightarrow> real \<Rightarrow> real \<times> real \<Rightarrow> bool" where
  "inClamp x y w h p \<longleftrightarrow>
     haloMin x w \<le> fst p \<and> fst p \<le> haloMax x w \<and>
     haloMin y h \<le> snd p \<and> snd p \<le> haloMax y h"

text \<open>
  Partial sums of the series of sine and cosine in Horner form; they enclose the values
  of \<open>sin\<close> that the proofs about \<open>random'\<close> at a concrete seed need.
\<close>

definition sinPoly :: "real \<Rightarrow> real" where
  "sinPoly x =
     (let y = x * x
      in x * (1 - y / 6 * (1 - y / 20 * (1 - y / 42 * (1 - y / 72 * (1 - y / 110 *
           (1 - y / 156 * (1 - y / 210))))))))"

definition cosPoly :: "real \<Rightarrow> real" where
  "cosPoly x =
     (let y = x * x
      in 1 - y / 2 * (1 - y / 12 * (1 - y / 30 * (1 - y / 56 * (1 - y / 90 * (1 - y / 132 *
           (1 - y / 182 * (1 - y / 240 * (1 - y / 306)))))))))"

section \<open>Properties of the edge pattern\<close>

text \<open>
  The loop equations are recursive without a pattern; they are unfolded by hand, one
  iteration at a time.
\<close>

declare initRow.simps [simp del]
declare initPattern.simps [simp del]
declare propagateRow.simps [simp del]
declare propagatePattern.simps [simp del]

lemma initRow_step:
  "col < cls \<Longrightarrow> initCell rws cls row col g = (c, g') \<Longrightarrow>
   initRow rws cls row col cells g = initRow rws cls row (col + 1) (cells @ [c]) g'"
  by (subst initRow.simps) simp

lemma initRow_exit: "\<not> col < cls \<Longrightarrow> initRow rws cls row col cells g = (cells, g)"
  by (subst initRow.simps) simp

lemma initPattern_step:
  "row < rws \<Longrightarrow> initRow rws cls row 0 [] g = (cells, g') \<Longrightarrow>
   initPattern rws cls row p g = initPattern rws cls (row + 1) (p @ [cells]) g'"
  by (subst initPattern.simps) simp

lemma initPattern_exit: "\<not> row < rws \<Longrightarrow> initPattern rws cls row p g = (p, g)"
  by (subst initPattern.simps) simp

lemma propagateRow_step:
  "col < cls \<Longrightarrow>
   propagateRow rws cls row col p =
     propagateRow rws cls row (col + 1) (propagateCell rws cls row col p)"
  by (subst propagateRow.simps) simp

lemma propagateRow_exit: "\<not> col < cls \<Longrightarrow> propagateRow rws cls row col p = p"
  by (subst propagateRow.simps) simp

lemma propagatePattern_step:
  "row < rws \<Longrightarrow>
   propagatePattern rws cls row p =
     propagatePattern rws cls (row + 1) (propagateRow rws cls row 0 p)"
  by (subst propagatePattern.simps) simp

lemma propagatePattern_exit: "\<not> row < rws \<Longrightarrow> propagatePattern rws cls row p = p"
  by (subst propagatePattern.simps) simp

lemma flagOrRandom_forced: "flagOrRandom True g = (False, g)"
  by (simp add: flagOrRandom_def)

lemma initCell_boundary:
  "initCell rws cls row col g = (e, g') \<Longrightarrow> boundaryFalse rws cls row col e"
  by (auto simp: initCell_def boundaryFalse_def flagOrRandom_def Let_def
      split: prod.splits if_splits)


lemma initRow_props:
  "initRow rws cls row col cells g = (cells', g') \<Longrightarrow> length cells = col \<Longrightarrow> col \<le> cls \<Longrightarrow>
   (\<forall>c<col. boundaryFalse rws cls row c (cells ! c)) \<Longrightarrow>
   length cells' = cls \<and> (\<forall>c<cls. boundaryFalse rws cls row c (cells' ! c))"
proof (induction rws cls row col cells g rule: initRow.induct)
  case (1 rws cls row col cells g)
  show ?case
  proof (cases "col < cls")
    case True
    obtain e g1 where e: "initCell rws cls row col g = (e, g1)"
      by (cases "initCell rws cls row col g")
    have rec: "initRow rws cls row (col + 1) (cells @ [e]) g1 = (cells', g')"
      using "1.prems"(1) True e by (simp add: initRow_step)
    have b: "boundaryFalse rws cls row col e"
      using e by (rule initCell_boundary)
    have "\<forall>c<col + 1. boundaryFalse rws cls row c ((cells @ [e]) ! c)"
      using "1.prems"(2,4) b by (auto simp: nth_append less_Suc_eq)
    then show ?thesis
      using "1.IH"[OF True e[symmetric] refl rec] "1.prems"(2) True by simp
  next
    case False
    then show ?thesis
      using "1.prems" by (simp add: initRow_exit)
  qed
qed

lemma initPattern_props:
  "initPattern rws cls row p g = (p', g') \<Longrightarrow> length p = row \<Longrightarrow> row \<le> rws \<Longrightarrow>
   allBoundaryFalse rws cls row p \<Longrightarrow>
   length p' = rws \<and> allBoundaryFalse rws cls rws p'"
proof (induction rws cls row p g rule: initPattern.induct)
  case (1 rws cls row p g)
  show ?case
  proof (cases "row < rws")
    case True
    obtain cells g1 where e: "initRow rws cls row 0 [] g = (cells, g1)"
      by (cases "initRow rws cls row 0 [] g")
    have rec: "initPattern rws cls (row + 1) (p @ [cells]) g1 = (p', g')"
      using "1.prems"(1) True e by (simp add: initPattern_step)
    have b: "length cells = cls \<and> (\<forall>c<cls. boundaryFalse rws cls row c (cells ! c))"
      using initRow_props[OF e] by simp
    have "allBoundaryFalse rws cls (row + 1) (p @ [cells])"
      using "1.prems"(2,4) b by (auto simp: allBoundaryFalse_def nth_append less_Suc_eq)
    then show ?thesis
      using "1.IH"[OF True e[symmetric] refl rec] "1.prems"(2) True by simp
  next
    case False
    then show ?thesis
      using "1.prems" by (simp add: initPattern_exit)
  qed
qed

lemma propagateCell_step:
  assumes "propInv rws cls p0 (doneBefore row col) p" "row < rws" "col < cls"
  shows "propInv rws cls p0 (doneBefore row (col + 1)) (propagateCell rws cls row col p)"
  using assms
  unfolding propInv_def wellShaped_def propagateCell_def setLeft_def setTop_def Let_def doneBefore_def
  apply (intro conjI allI impI)
  apply (auto simp: nth_list_update)
  done


lemma propInv_cong:
  "propInv rws cls p0 dn p \<Longrightarrow> (\<And>r c. r < rws \<Longrightarrow> c < cls \<Longrightarrow> dn r c = dn' r c) \<Longrightarrow>
   propInv rws cls p0 dn' p"
  unfolding propInv_def
  by (auto simp: less_imp_diff_less)

lemma propagateRow_inv:
  "propInv rws cls p0 (doneBefore row col) p \<Longrightarrow> row < rws \<Longrightarrow> col \<le> cls \<Longrightarrow>
   propInv rws cls p0 (doneBefore row cls) (propagateRow rws cls row col p)"
proof (induction rws cls row col p rule: propagateRow.induct)
  case (1 rws cls row col p)
  show ?case
  proof (cases "col < cls")
    case True
    have "propInv rws cls p0 (doneBefore row (col + 1)) (propagateCell rws cls row col p)"
      using "1.prems"(1,2) True by (rule propagateCell_step)
    then have "propInv rws cls p0 (doneBefore row cls)
        (propagateRow rws cls row (col + 1) (propagateCell rws cls row col p))"
      using "1.IH" [OF True] "1.prems"(2) True by simp
    then show ?thesis
      using True by (simp add: propagateRow_step)
  next
    case False
    then show ?thesis
      using "1.prems" by (simp add: propagateRow_exit)
  qed
qed

lemma propagatePattern_inv:
  "propInv rws cls p0 (doneBefore row 0) p \<Longrightarrow> row \<le> rws \<Longrightarrow>
   propInv rws cls p0 (doneBefore rws 0) (propagatePattern rws cls row p)"
proof (induction rws cls row p rule: propagatePattern.induct)
  case (1 rws cls row p)
  show ?case
  proof (cases "row < rws")
    case True
    have "propInv rws cls p0 (doneBefore row cls) (propagateRow rws cls row 0 p)"
      using "1.prems"(1) True by (rule propagateRow_inv) simp
    then have "propInv rws cls p0 (doneBefore (row + 1) 0) (propagateRow rws cls row 0 p)"
      by (rule propInv_cong) (auto simp: doneBefore_def)
    then have "propInv rws cls p0 (doneBefore rws 0)
        (propagatePattern rws cls (row + 1) (propagateRow rws cls row 0 p))"
      using "1.IH" [OF True] True by simp
    then show ?thesis
      using True by (simp add: propagatePattern_step)
  next
    case False
    then show ?thesis
      using "1.prems" by (simp add: propagatePattern_exit)
  qed
qed

lemma propInv_start:
  "wellShaped rws cls p \<Longrightarrow> propInv rws cls p (doneBefore 0 0) p"
  by (simp add: propInv_def doneBefore_def)

lemma propInv_final_consistent:
  assumes inv: "propInv rws cls p0 (doneBefore rws 0) p"
    and b: "allBoundaryFalse rws cls rws p0"
  shows "consistent rws cls p"
  unfolding consistent_def
proof (intro allI impI)
  fix r c
  assume r: "r < rws" and c: "c < cls"
  have cell: "rightE (p ! r ! c) = rightE (p0 ! r ! c)" "bottomE (p ! r ! c) = bottomE (p0 ! r ! c)"
    "leftE (p ! r ! c) = (if 0 < c then \<not> rightE (p0 ! r ! (c - 1)) else leftE (p0 ! r ! c))"
    "topE (p ! r ! c) = (if 0 < r then \<not> bottomE (p0 ! (r - 1) ! c) else topE (p0 ! r ! c))"
    using inv r c by (auto simp: propInv_def doneBefore_def)
  have b0: "boundaryFalse rws cls r c (p0 ! r ! c)"
    using b r c by (simp add: allBoundaryFalse_def)
  have right: "c + 1 < cls \<Longrightarrow> rightE (p ! r ! c) = (\<not> leftE (p ! r ! (c + 1)))"
    using inv r by (auto simp: propInv_def doneBefore_def)
  have bot: "r + 1 < rws \<Longrightarrow> bottomE (p ! r ! c) = (\<not> topE (p ! (r + 1) ! c))"
    using inv c by (auto simp: propInv_def doneBefore_def)
  have "boundaryFalse rws cls r c (p ! r ! c)"
    using b0 cell by (auto simp: boundaryFalse_def)
  with right bot show "(c + 1 < cls \<longrightarrow> rightE (p ! r ! c) = (\<not> leftE (p ! r ! (c + 1)))) \<and>
        (r + 1 < rws \<longrightarrow> bottomE (p ! r ! c) = (\<not> topE (p ! (r + 1) ! c))) \<and>
        boundaryFalse rws cls r c (p ! r ! c)"
    by blast
qed

lemma buildPattern_props:
  assumes "buildPattern rws cls g = (p, g')"
  shows "wellShaped rws cls p \<and> consistent rws cls p"
proof -
  obtain p0 g0 where i: "initPattern rws cls 0 [] g = (p0, g0)"
    by (cases "initPattern rws cls 0 [] g")
  have p: "p = propagatePattern rws cls 0 p0"
    using assms i by (simp add: buildPattern_def)
  have i0: "length p0 = rws \<and> allBoundaryFalse rws cls rws p0"
    using initPattern_props[OF i] by (simp add: allBoundaryFalse_def)
  then have ws: "wellShaped rws cls p0"
    by (simp add: wellShaped_def allBoundaryFalse_def)
  have inv: "propInv rws cls p0 (doneBefore rws 0) p"
    unfolding p using propInv_start[OF ws] by (rule propagatePattern_inv) simp
  show ?thesis
    using inv propInv_final_consistent[OF inv] i0 by (simp add: propInv_def)
qed

section \<open>Properties of the missing set\<close>


lemma set_setAdd: "set (setAdd xs v) = insert v (set xs)"
  by (auto simp: setAdd_def)

lemma distinct_setAdd: "distinct xs \<Longrightarrow> distinct (setAdd xs v)"
  by (simp add: setAdd_def)

lemma length_setAdd: "length (setAdd xs v) \<le> Suc (length xs)"
  by (simp add: setAdd_def)

lemma nextIndex_range:
  assumes "0 \<le> r" "r < 1" "0 < t"
  shows "0 \<le> \<lfloor>r * real t\<rfloor> \<and> \<lfloor>r * real t\<rfloor> < int t"
proof -
  have "r * real t < real t"
    using assms by simp
  then have "\<lfloor>r * real t\<rfloor> < int t"
    by (simp add: floor_less_iff)
  moreover have "0 \<le> r * real t"
    using assms by simp
  ultimately show ?thesis
    by simp
qed

lemma unitRange_next: "unitRange g \<Longrightarrow> unitRange (snd (mathRandom g))"
  by (simp add: unitRange_def mathRandom_def)

lemma unitRange_draw: "unitRange g \<Longrightarrow> 0 \<le> fst (mathRandom g) \<and> fst (mathRandom g) < 1"
  by (simp add: unitRange_def mathRandom_def)


lemma missingOk_setAdd:
  assumes "missingOk c t xs" "unitRange g" "0 < t"
  shows "missingOk c t (setAdd xs \<lfloor>fst (mathRandom g) * real t\<rfloor>)"
  using assms nextIndex_range [OF _ _ assms(3), of "fst (mathRandom g)"] unitRange_draw [OF assms(2)]
  by (auto simp: missingOk_def set_setAdd distinct_setAdd)

lemma fillMissing_partial:
  assumes "fillMissing c t xs g = Some r"
  shows "unitRange g \<longrightarrow> missingOk c t xs \<longrightarrow> length xs \<le> c \<longrightarrow> (0 < t \<or> c = 0) \<longrightarrow>
         missingOk c t (fst r) \<and> length (fst r) = c \<and> fst (snd r) = fst g"
proof (rule fillMissing.raw_induct
    [where P = "\<lambda>c t xs g r. unitRange g \<longrightarrow> missingOk c t xs \<longrightarrow> length xs \<le> c \<longrightarrow>
         (0 < t \<or> c = 0) \<longrightarrow>
         missingOk c t (fst r) \<and> length (fst r) = c \<and> fst (snd r) = fst g", OF _ assms])
  fix f :: "nat \<Rightarrow> nat \<Rightarrow> int list \<Rightarrow> rng \<Rightarrow> (int list \<times> rng) option"
  fix c t xs g r
  assume IH: "\<And>c t xs g r. f c t xs g = Some r \<Longrightarrow>
      unitRange g \<longrightarrow> missingOk c t xs \<longrightarrow> length xs \<le> c \<longrightarrow> (0 < t \<or> c = 0) \<longrightarrow>
         missingOk c t (fst r) \<and> length (fst r) = c \<and> fst (snd r) = fst g"
  assume step: "(if length xs < c
      then f c t (setAdd xs \<lfloor>fst (mathRandom g) * real t\<rfloor>) (snd (mathRandom g))
      else Some (xs, g)) = Some r"
  show "unitRange g \<longrightarrow> missingOk c t xs \<longrightarrow> length xs \<le> c \<longrightarrow> (0 < t \<or> c = 0) \<longrightarrow>
         missingOk c t (fst r) \<and> length (fst r) = c \<and> fst (snd r) = fst g"
  proof (intro impI)
    assume u: "unitRange g" and ok: "missingOk c t xs" and le: "length xs \<le> c"
      and t: "0 < t \<or> c = 0"
    show "missingOk c t (fst r) \<and> length (fst r) = c \<and> fst (snd r) = fst g"
    proof (cases "length xs < c")
      case True
      then have t0: "0 < t"
        using t by auto
      have rec: "f c t (setAdd xs \<lfloor>fst (mathRandom g) * real t\<rfloor>) (snd (mathRandom g)) = Some r"
        using step True by simp
      have l: "length (setAdd xs \<lfloor>fst (mathRandom g) * real t\<rfloor>) \<le> c"
        using True length_setAdd [of xs "\<lfloor>fst (mathRandom g) * real t\<rfloor>"] by simp
      have "missingOk c t (fst r) \<and> length (fst r) = c \<and> fst (snd r) = fst (snd (mathRandom g))"
        using IH [OF rec] unitRange_next [OF u] missingOk_setAdd [OF ok u t0] l t by blast
      then show ?thesis
        by (simp add: mathRandom_def)
    next
      case False
      then have "r = (xs, g)"
        using step by simp
      then show ?thesis
        using ok le False by simp
    qed
  qed
qed

lemma fillMissing_exit: "\<not> length xs < c \<Longrightarrow> fillMissing c t xs g = Some (xs, g)"
  by (subst fillMissing.simps) simp

lemma fillMissing_step:
  "length xs < c \<Longrightarrow>
   fillMissing c t xs g =
     fillMissing c t (setAdd xs \<lfloor>fst (mathRandom g) * real t\<rfloor>) (snd (mathRandom g))"
  by (subst fillMissing.simps) simp



lemma flagOrRandom_stream: "fst (snd (flagOrRandom b g)) = fst g"
  by (simp add: flagOrRandom_def mathRandom_def split: prod.splits)

lemma initCell_stream: "fst (snd (initCell rws cls row col g)) = fst g"
proof -
  obtain t g1 where a: "flagOrRandom (row = 0) g = (t, g1)"
    by (cases "flagOrRandom (row = 0) g")
  obtain r g2 where b: "flagOrRandom (col = cls - 1) g1 = (r, g2)"
    by (cases "flagOrRandom (col = cls - 1) g1")
  obtain bo g3 where c: "flagOrRandom (row = rws - 1) g2 = (bo, g3)"
    by (cases "flagOrRandom (row = rws - 1) g2")
  obtain l g4 where d: "flagOrRandom (col = 0) g3 = (l, g4)"
    by (cases "flagOrRandom (col = 0) g3")
  have "fst g1 = fst g" "fst g2 = fst g1" "fst g3 = fst g2" "fst g4 = fst g3"
    using flagOrRandom_stream [of "row = 0" g] flagOrRandom_stream [of "col = cls - 1" g1]
      flagOrRandom_stream [of "row = rws - 1" g2] flagOrRandom_stream [of "col = 0" g3]
    unfolding a b c d by simp_all
  then have "fst g4 = fst g"
    by simp
  then show ?thesis
    unfolding initCell_def Let_def a b c d prod.case by simp
qed

lemma initRow_stream: "fst (snd (initRow rws cls row col cells g)) = fst g"
proof (induction rws cls row col cells g rule: initRow.induct)
  case (1 rws cls row col cells g)
  show ?case
  proof (cases "col < cls")
    case True
    obtain e g1 where e: "initCell rws cls row col g = (e, g1)"
      by (cases "initCell rws cls row col g")
    have "fst g1 = fst g"
      using initCell_stream [of rws cls row col g] by (simp add: e)
    then show ?thesis
      using "1.IH" [OF True e [symmetric] refl] True by (simp add: initRow_step [OF True e])
  next
    case False
    then show ?thesis
      by (simp add: initRow_exit)
  qed
qed

lemma initPattern_stream: "fst (snd (initPattern rws cls row p g)) = fst g"
proof (induction rws cls row p g rule: initPattern.induct)
  case (1 rws cls row p g)
  show ?case
  proof (cases "row < rws")
    case True
    obtain cells g1 where e: "initRow rws cls row 0 [] g = (cells, g1)"
      by (cases "initRow rws cls row 0 [] g")
    have "fst g1 = fst g"
      using initRow_stream [of rws cls row 0 "[]" g] by (simp add: e)
    then show ?thesis
      using "1.IH" [OF True e [symmetric] refl] True by (simp add: initPattern_step [OF True e])
  next
    case False
    then show ?thesis
      by (simp add: initPattern_exit)
  qed
qed

lemma buildPattern_stream: "fst (snd (buildPattern rws cls g)) = fst g"
  using initPattern_stream [of rws cls 0 "[]" g]
  by (auto simp: buildPattern_def split: prod.splits)

lemma buildPattern_unitRange: "unitRange g \<Longrightarrow> unitRange (snd (buildPattern rws cls g))"
  by (simp add: unitRange_def buildPattern_stream)

lemma generatePuzzles_Some:
  "generatePuzzles ss img st cur g0 = Some (out, g2) \<longleftrightarrow>
   (\<exists>missing.
      fillMissing (rows st * columns st * missingPercentage st div 100) (rows st * columns st) []
        (snd (buildPattern (rows st) (columns st) g0)) = Some (missing, g2) \<and>
      out =
        (let usedShapeSeed = usedSeed ss cur;
             width = fst (scaleDimensions (outputQuality st) (real (imgWidth img)) (real (imgHeight img)));
             height = snd (scaleDimensions (outputQuality st) (real (imgWidth img)) (real (imgHeight img)));
             pieceWidth = binary64 (width / real (columns st));
             pieceHeight = binary64 (height / real (rows st));
             pattern = fst (buildPattern (rows st) (columns st) g0);
             strokes = strokePieces st width height pieceWidth pieceHeight usedShapeSeed pattern
         in \<lparr>completeCanvas =
               \<lparr>canvasWidth = canvasSize width, canvasHeight = canvasSize height,
                commands = DrawImage img 0 0 width height # strokeSettings st @ strokes\<rparr>,
             missingCanvas =
               \<lparr>canvasWidth = canvasSize width, canvasHeight = canvasSize height,
                commands =
                  DrawImage img 0 0 width height #
                  concat (map (cutPiece st width height pieceWidth pieceHeight usedShapeSeed
                                 pattern) missing) @
                  strokeSettings st @ strokes\<rparr>,
             pieceStats =
               \<lparr>statTotal = rows st * columns st,
                statMissing = rows st * columns st * missingPercentage st div 100\<rparr>,
             piecePattern = pattern,
             missingIndices = missing\<rparr>))"
  by (auto simp: generatePuzzles_def Let_def split: prod.splits option.splits)

lemma concat_map_upt_split:
  "i < n \<Longrightarrow>
   concat (map f [0..<n]) = concat (map f [0..<i]) @ f i @ concat (map f [Suc i..<n])"
proof -
  assume "i < n"
  then have "[0..<n] = [0..<i] @ i # [Suc i..<n]"
    using upt_add_eq_append [of 0 i "n - i"] upt_conv_Cons [of i n] by simp
  then show ?thesis
    by simp
qed

lemma concat_map_mem_split:
  "x \<in> set xs \<Longrightarrow> \<exists>a b. concat (map f xs) = a @ f x @ b"
proof -
  assume "x \<in> set xs"
  then obtain ys zs where "xs = ys @ x # zs"
    by (meson split_list)
  then have "concat (map f xs) = concat (map f ys) @ f x @ concat (map f zs)"
    by simp
  then show ?thesis
    by blast
qed

lemma strokePieces_split:
  assumes "row < rows st" "col < columns st"
  shows "\<exists>a b. strokePieces st width height pw ph seed pat =
           a @ strokePiece st width height pw ph seed pat row col @ b"
proof -
  let ?f = "\<lambda>row. concat (map (\<lambda>col. strokePiece st width height pw ph seed pat row col)
      [0..<columns st])"
  have 1: "strokePieces st width height pw ph seed pat =
      concat (map ?f [0..<row]) @ ?f row @ concat (map ?f [Suc row..<rows st])"
    unfolding strokePieces_def using assms(1) by (rule concat_map_upt_split)
  have 2: "?f row =
      concat (map (\<lambda>col. strokePiece st width height pw ph seed pat row col) [0..<col]) @
      strokePiece st width height pw ph seed pat row col @
      concat (map (\<lambda>col. strokePiece st width height pw ph seed pat row col) [Suc col..<columns st])"
    using assms(2) by (rule concat_map_upt_split)
  show ?thesis
    unfolding 1 2 by (metis append.assoc)
qed

lemma index_decode:
  assumes "0 \<le> index" "index < int (r * c)"
  shows "nat (index div int c) < r \<and> nat (index mod int c) < c \<and>
         index = int (nat (index div int c) * c + nat (index mod int c))"
proof -
  have c: "0 < c"
    using assms by (cases c) auto
  have "nat index < r * c"
    using assms by linarith
  then have "nat index div c < r"
    by (simp add: less_mult_imp_div_less)
  moreover have d: "nat (index div int c) = nat index div c"
    using assms(1) by (simp add: nat_div_distrib)
  moreover have m: "nat (index mod int c) = nat index mod c"
    using assms(1) by (simp add: nat_mod_distrib)
  moreover have "nat index mod c < c"
    using c by simp
  moreover have "int (nat index div c * c + nat index mod c) = index"
    using assms(1) by simp
  ultimately show ?thesis
    by simp
qed


lemma generated_missing_range:
  assumes "unitRange g0" "generatePuzzles ss img st cur g0 = Some (out, g')"
    "index \<in> set (missingIndices out)"
  shows "0 \<le> index \<and> index < int (rows st * columns st)"
proof -
  let ?t = "rows st * columns st"
  let ?c = "?t * missingPercentage st div 100"
  from assms(2) obtain missing where
    f: "fillMissing ?c ?t [] (snd (buildPattern (rows st) (columns st) g0)) = Some (missing, g')"
    and m: "missingIndices out = missing"
    by (auto simp: generatePuzzles_Some Let_def)
  have t: "0 < ?t \<or> ?c = 0"
    by (cases "rows st = 0 \<or> columns st = 0") auto
  have e: "missingOk ?c ?t []" "length ([]::int list) \<le> ?c"
    by (simp_all add: missingOk_def)
  have "missingOk ?c ?t missing"
    using fillMissing_partial [OF f, rule_format, OF buildPattern_unitRange [OF assms(1)] e t]
    by simp
  then show ?thesis
    using assms(3) by (simp add: m missingOk_def)
qed

lemma strokePiece_abstract:
  "pieceStyle st = Abstract \<Longrightarrow>
   strokePiece st width height pw ph seed pat row col =
     drawAbstractPuzzlePiece (binary64 (real col * pw)) (binary64 (real row * ph)) pw ph
       (seed + real row * real (columns st) + real col + 1) @ [Stroke]"
  by (simp add: strokePiece_def Let_def)

lemma strokePieces_abstract:
  "pieceStyle st = Abstract \<Longrightarrow>
   strokePieces st width height pw ph seed pat =
     concat (map (\<lambda>row.
       concat (map (\<lambda>col.
         drawAbstractPuzzlePiece (binary64 (real col * pw)) (binary64 (real row * ph)) pw ph
           (seed + real row * real (columns st) + real col + 1) @ [Stroke])
         [0..<columns st]))
       [0..<rows st])"
  by (simp add: strokePieces_def strokePiece_abstract)

lemma usedSeed_explicit: "s \<noteq> 0 \<Longrightarrow> usedSeed ss (Some s) = s"
  by (simp add: usedSeed_def)

lemma qualitySettings_pos:
  "qualitySettings q = Some (mw, mh) \<Longrightarrow> 0 < mw \<and> 0 < mh \<and> q \<noteq> Original"
  by (cases q) auto

lemma canvasSize_le: "v \<le> real n \<Longrightarrow> canvasSize v \<le> n"
  by (simp add: canvasSize_def floor_le_iff nat_le_iff)

lemma canvasSize_le_numeral: "v \<le> c \<Longrightarrow> c = real n \<Longrightarrow> canvasSize v \<le> n"
  using canvasSize_le by simp




section \<open>Properties of the rounding\<close>

declare expo.simps [simp del]

lemma powi2_Suc: "(2::real) powi (e + 1) = 2 * 2 powi e"
  by (simp add: power_int_add)

lemma powi2_pred: "(2::real) powi (e - 1) = 2 powi e / 2"
  using powi2_Suc [of "e - 1"] by simp

lemma powi2_pos: "0 < (2::real) powi e"
  by simp

lemma powi2_less_iff: "(2::real) powi a < 2 powi b \<longleftrightarrow> a < b"
proof
  assume l: "(2::real) powi a < 2 powi b"
  show "a < b"
  proof (rule ccontr)
    assume "\<not> a < b"
    then have "(2::real) powi b \<le> 2 powi a"
      by (intro power_int_increasing) simp_all
    then show False
      using l by simp
  qed
next
  assume "a < b"
  then show "(2::real) powi a < 2 powi b"
    by (intro power_int_strict_increasing) simp_all
qed

lemma expo_bounds: "0 < x \<Longrightarrow> 2 powi expo x \<le> x \<and> x < 2 powi (expo x + 1)"
proof (induction x rule: expo.induct)
  case (1 x)
  show ?case
  proof (cases "0 < x \<and> x < 1")
    case True
    then have e: "expo x = expo (2 * x) - 1"
      by (subst expo.simps) simp
    have "2 powi expo (2 * x) \<le> 2 * x \<and> 2 * x < 2 powi (expo (2 * x) + 1)"
      using 1(1) True by simp
    then show ?thesis
      unfolding e by (simp add: powi2_pred powi2_Suc)
  next
    case False
    show ?thesis
    proof (cases "2 \<le> x")
      case True
      then have e: "expo x = expo (x / 2) + 1"
        using False by (subst expo.simps) simp
      have "2 powi expo (x / 2) \<le> x / 2 \<and> x / 2 < 2 powi (expo (x / 2) + 1)"
        using 1(2) [OF False True] True by simp
      moreover have "(2::real) powi (expo (x / 2) + 1 + 1) = 2 * 2 powi (expo (x / 2) + 1)"
        "(2::real) powi (expo (x / 2) + 1) = 2 * 2 powi expo (x / 2)"
        by (rule powi2_Suc)+
      ultimately show ?thesis
        unfolding e by linarith
    next
      case F2: False
      have e: "expo x = 0"
        by (subst expo.simps) (use False F2 in auto)
      show ?thesis
        unfolding e using False F2 1(3) by simp
    qed
  qed
qed

lemma expo_unique:
  assumes "0 < x" "2 powi e \<le> x" "x < 2 powi (e + 1)"
  shows "expo x = e"
proof -
  have b: "2 powi expo x \<le> x" "x < 2 powi (expo x + 1)"
    using expo_bounds [OF assms(1)] by simp_all
  have "(2::real) powi expo x < 2 powi (e + 1)"
    using b(1) assms(3) by simp
  then have 1: "expo x < e + 1"
    by (simp add: powi2_less_iff)
  have "(2::real) powi e < 2 powi (expo x + 1)"
    using b(2) assms(2) by simp
  then have 2: "e < expo x + 1"
    by (simp add: powi2_less_iff)
  show ?thesis
    using 1 2 by simp
qed

lemma roundEven_error: "\<bar>real_of_int (roundEven x) - x\<bar> \<le> 1 / 2"
proof -
  have "real_of_int \<lfloor>x\<rfloor> \<le> x" "x < real_of_int \<lfloor>x\<rfloor> + 1"
    by linarith+
  then show ?thesis
    by (auto simp: roundEven_def Let_def)
qed

lemma roundEven_of_int: "roundEven (of_int k) = k"
  by (simp add: roundEven_def)

lemma roundEven_between: "\<lfloor>x\<rfloor> \<le> roundEven x \<and> roundEven x \<le> \<lfloor>x\<rfloor> + 1"
  by (simp add: roundEven_def Let_def)

lemma roundEven_mono:
  assumes "x \<le> y"
  shows "roundEven x \<le> roundEven y"
proof (cases "\<lfloor>x\<rfloor> = \<lfloor>y\<rfloor>")
  case True
  have "x - of_int \<lfloor>y\<rfloor> \<le> y - of_int \<lfloor>y\<rfloor>"
    using assms by simp
  then show ?thesis
    unfolding roundEven_def Let_def True by auto
next
  case False
  have "\<lfloor>x\<rfloor> \<le> \<lfloor>y\<rfloor>"
    using assms by (rule floor_mono)
  then have "\<lfloor>x\<rfloor> + 1 \<le> \<lfloor>y\<rfloor>"
    using False by simp
  then show ?thesis
    using roundEven_between [of x] roundEven_between [of y] by linarith
qed

lemma binary64_minus: "binary64 (- x) = - binary64 x"
  by (simp add: binary64_def Let_def sgn_minus)

lemma binary64_zero: "binary64 0 = 0"
  by (simp add: binary64_def)

lemma binary64_pos:
  "0 < x \<Longrightarrow> binary64 x =
     real_of_int (roundEven (x / 2 powi (max (expo x) (- 1022) - 52))) *
       2 powi (max (expo x) (- 1022) - 52)"
  by (simp add: binary64_def Let_def)

lemma binary64_eval:
  assumes "0 < x" "2 ^ 52 \<le> x * 2 ^ k" "x * 2 ^ k < 2 ^ 53" "k \<le> 1074"
  shows "binary64 x = real_of_int (roundEven (x * 2 ^ k)) / 2 ^ k"
proof -
  have p: "(2::real) powi (52 - int k) = 2 ^ 52 / 2 ^ k"
    by (simp add: power_int_diff)
  have q: "(2::real) powi (52 - int k + 1) = 2 ^ 53 / 2 ^ k"
    using powi2_Suc [of "52 - int k"] p by simp
  have "expo x = 52 - int k"
  proof (rule expo_unique [OF assms(1)])
    show "2 powi (52 - int k) \<le> x"
      unfolding p using assms(2) by (simp add: field_simps)
    show "x < 2 powi (52 - int k + 1)"
      unfolding q using assms(3) by (simp add: field_simps)
  qed
  then have e: "max (expo x) (- 1022) - 52 = - int k"
    using assms(4) by simp
  have r: "(2::real) powi (- int k) = 1 / 2 ^ k"
    by (simp add: power_int_minus field_simps)
  show ?thesis
    unfolding binary64_pos [OF assms(1)] e r by simp
qed

lemma binary64_error:
  assumes "2 powi (- 1022) \<le> \<bar>x\<bar>"
  shows "\<bar>binary64 x - x\<bar> \<le> \<bar>x\<bar> / 2 ^ 53"
proof -
  have pos: "\<bar>binary64 y - y\<bar> \<le> y / 2 ^ 53" if y: "2 powi (- 1022) \<le> y" for y :: real
  proof -
    have y0: "0 < y"
      using y powi2_pos [of "- 1022"] by linarith
    have b: "2 powi expo y \<le> y" "y < 2 powi (expo y + 1)"
      using expo_bounds [OF y0] by simp_all
    have "(2::real) powi (- 1022) < 2 powi (expo y + 1)"
      using y b(2) by simp
    then have "- 1022 < expo y + 1"
      unfolding powi2_less_iff .
    then have e: "max (expo y) (- 1022) - 52 = expo y - 52"
      by simp
    define q :: real where "q = 2 powi (expo y - 52)"
    have q0: "0 < q"
      by (simp add: q_def)
    have qe: "2 powi expo y = q * 2 ^ 52"
      by (simp add: q_def power_int_diff)
    have vy: "binary64 y = real_of_int (roundEven (y / q)) * q"
      unfolding binary64_pos [OF y0] e q_def by simp
    have "\<bar>real_of_int (roundEven (y / q)) - y / q\<bar> \<le> 1 / 2"
      by (rule roundEven_error)
    then have "\<bar>real_of_int (roundEven (y / q)) - y / q\<bar> * q \<le> 1 / 2 * q"
      using q0 by (simp only: mult_le_cancel_right_pos)
    moreover have "\<bar>real_of_int (roundEven (y / q)) - y / q\<bar> * q =
        \<bar>real_of_int (roundEven (y / q)) * q - y\<bar>"
    proof -
      have "(real_of_int (roundEven (y / q)) - y / q) * q = real_of_int (roundEven (y / q)) * q - y"
        using q0 by (simp add: left_diff_distrib)
      then have "\<bar>real_of_int (roundEven (y / q)) * q - y\<bar> =
          \<bar>real_of_int (roundEven (y / q)) - y / q\<bar> * \<bar>q\<bar>"
        by (simp only: abs_mult [symmetric])
      then show ?thesis
        using q0 by simp
    qed
    ultimately have 1: "\<bar>binary64 y - y\<bar> \<le> q / 2"
      unfolding vy by simp
    have "q * 2 ^ 52 \<le> y"
      using b(1) qe by simp
    then have "q / 2 \<le> y / 2 ^ 53"
      by (simp add: field_simps)
    then show ?thesis
      using 1 by linarith
  qed
  show ?thesis
  proof (cases "0 \<le> x")
    case True
    then show ?thesis
      using pos [of x] assms by simp
  next
    case False
    then have "\<bar>binary64 (- x) - (- x)\<bar> \<le> (- x) / 2 ^ 53"
      using pos [of "- x"] assms by simp
    then show ?thesis
      using False by (simp add: binary64_minus)
  qed
qed

lemma binary64_nonneg: "0 \<le> x \<Longrightarrow> 0 \<le> binary64 x"
proof -
  assume x: "0 \<le> x"
  have "0 \<le> x / 2 powi (max (expo \<bar>x\<bar>) (- 1022) - 52)"
    using x by simp
  then have "roundEven 0 \<le> roundEven (x / 2 powi (max (expo \<bar>x\<bar>) (- 1022) - 52))"
    by (rule roundEven_mono)
  then have "0 \<le> roundEven (x / 2 powi (max (expo \<bar>x\<bar>) (- 1022) - 52))"
    using roundEven_of_int [of 0] by simp
  then show ?thesis
    using x by (simp add: binary64_def Let_def sgn_if)
qed

lemma expo_mono:
  assumes "0 < x" "x \<le> y"
  shows "expo x \<le> expo y"
proof -
  have "2 powi expo x \<le> x" "y < 2 powi (expo y + 1)"
    using expo_bounds [of x] expo_bounds [of y] assms by simp_all
  then have "(2::real) powi expo x < 2 powi (expo y + 1)"
    using assms by linarith
  then have "expo x < expo y + 1"
    by (simp add: powi2_less_iff)
  then show ?thesis
    by simp
qed

lemma binary64_mono_pos:
  assumes "0 < x" "x \<le> y"
  shows "binary64 x \<le> binary64 y"
proof -
  have y0: "0 < y"
    using assms by simp
  define ex where "ex = max (expo x) (- 1022)"
  define ey where "ey = max (expo y) (- 1022)"
  have vx: "binary64 x = real_of_int (roundEven (x / 2 powi (ex - 52))) * 2 powi (ex - 52)"
    unfolding ex_def by (rule binary64_pos [OF assms(1)])
  have vy: "binary64 y = real_of_int (roundEven (y / 2 powi (ey - 52))) * 2 powi (ey - 52)"
    unfolding ey_def by (rule binary64_pos [OF y0])
  have le: "ex \<le> ey"
    unfolding ex_def ey_def using expo_mono [OF assms] by simp
  show ?thesis
  proof (cases "ex = ey")
    case True
    have "x / 2 powi (ey - 52) \<le> y / 2 powi (ey - 52)"
      using assms(2) by (simp add: divide_right_mono)
    then have "roundEven (x / 2 powi (ey - 52)) \<le> roundEven (y / 2 powi (ey - 52))"
      by (rule roundEven_mono)
    then show ?thesis
      unfolding vx vy True by simp
  next
    case False
    then have lt: "ex < ey"
      using le by simp
    then have eyy: "ey = expo y"
      unfolding ex_def ey_def by linarith
    have xb: "x < 2 powi (expo x + 1)" and yb: "2 powi expo y \<le> y"
      using expo_bounds [OF assms(1)] expo_bounds [OF y0] by simp_all
    have "(2::real) powi (expo x + 1) \<le> 2 powi (ex + 1)"
      unfolding ex_def by (simp add: power_int_increasing)
    then have xb': "x < 2 powi (ex + 1)"
      using xb by linarith
    have s1: "(2::real) powi (ex + 1) = 2 ^ 53 * 2 powi (ex - 52)"
      by (simp add: power_int_diff power_int_add)
    have "x / 2 powi (ex - 52) \<le> 2 ^ 53"
      using xb' unfolding s1 by (simp add: field_simps)
    then have "roundEven (x / 2 powi (ex - 52)) \<le> roundEven (of_int (2 ^ 53))"
      by (intro roundEven_mono) simp
    then have "real_of_int (roundEven (x / 2 powi (ex - 52))) \<le> real_of_int (2 ^ 53)"
      unfolding roundEven_of_int by (simp only: of_int_le_iff)
    then have "real_of_int (roundEven (x / 2 powi (ex - 52))) \<le> 2 ^ 53"
      by simp
    then have "binary64 x \<le> 2 ^ 53 * 2 powi (ex - 52)"
      unfolding vx by (simp add: mult_right_mono)
    then have 1: "binary64 x \<le> 2 powi (ex + 1)"
      unfolding s1 .
    have s2: "(2::real) powi ey = 2 ^ 52 * 2 powi (ey - 52)"
      by (simp add: power_int_diff)
    have "2 ^ 52 \<le> y / 2 powi (ey - 52)"
      using yb unfolding eyy [symmetric] s2 by (simp add: field_simps)
    then have "roundEven (of_int (2 ^ 52)) \<le> roundEven (y / 2 powi (ey - 52))"
      by (intro roundEven_mono) simp
    then have "real_of_int (2 ^ 52) \<le> real_of_int (roundEven (y / 2 powi (ey - 52)))"
      unfolding roundEven_of_int by (simp only: of_int_le_iff)
    then have "2 ^ 52 \<le> real_of_int (roundEven (y / 2 powi (ey - 52)))"
      by simp
    then have "2 ^ 52 * 2 powi (ey - 52) \<le> binary64 y"
      unfolding vy by (simp add: mult_right_mono)
    then have 2: "2 powi ey \<le> binary64 y"
      unfolding s2 .
    have "(2::real) powi (ex + 1) \<le> 2 powi ey"
      using lt by (simp add: power_int_increasing)
    then show ?thesis
      using 1 2 by linarith
  qed
qed

lemma binary64_mono:
  assumes "x \<le> y"
  shows "binary64 x \<le> binary64 y"
proof -
  consider "0 < x" | "x = 0" | "x < 0" "0 \<le> y" | "x < 0" "y < 0"
    by linarith
  then show ?thesis
  proof cases
    case 1
    then show ?thesis
      using assms by (rule binary64_mono_pos)
  next
    case 2
    then show ?thesis
      using assms binary64_nonneg [of y] by (simp add: binary64_zero)
  next
    case 3
    have "0 \<le> binary64 (- x)"
      using 3 by (intro binary64_nonneg) simp
    then have "binary64 x \<le> 0"
      by (simp add: binary64_minus)
    then show ?thesis
      using binary64_nonneg [OF 3(2)] by linarith
  next
    case 4
    have "binary64 (- y) \<le> binary64 (- x)"
      using 4 assms by (intro binary64_mono_pos) simp_all
    then show ?thesis
      by (simp add: binary64_minus)
  qed
qed

section \<open>Properties of the scaling\<close>

lemma binary64_value:
  assumes "0 < x" "2 ^ 52 \<le> x * 2 ^ k" "x * 2 ^ k < 2 ^ 53" "k \<le> 1074"
    "roundEven (x * 2 ^ k) = m"
  shows "binary64 x = real_of_int m / 2 ^ k"
  using binary64_eval [OF assms(1-4)] assms(5) by simp

lemma powi2_normal: "(2::real) powi (- 1022) \<le> 1 / 2 ^ 33"
proof -
  have "(2::real) powi (- 1022) \<le> 2 powi (- 33)"
    by (intro power_int_increasing) simp_all
  also have "\<dots> = 1 / 2 ^ 33"
    by (simp add: power_int_minus field_simps)
  finally show ?thesis .
qed

lemma abs_diff_leD: "\<bar>a - b\<bar> \<le> c \<Longrightarrow> a - b \<le> c \<and> b - a \<le> (c::real)"
  by (simp add: abs_le_iff)

lemma abs_diff_leI: "a - b \<le> c \<Longrightarrow> b - a \<le> c \<Longrightarrow> \<bar>a - b\<bar> \<le> (c::real)"
  by (simp add: abs_le_iff)

lemma rel_min:
  fixes a b a' b' :: real
  assumes "a * (1 - 1 / 2 ^ 53) \<le> a' \<and> a' \<le> a * (1 + 1 / 2 ^ 53)"
    "b * (1 - 1 / 2 ^ 53) \<le> b' \<and> b' \<le> b * (1 + 1 / 2 ^ 53)"
  shows "min a b * (1 - 1 / 2 ^ 53) \<le> min a' b' \<and> min a' b' \<le> min a b * (1 + 1 / 2 ^ 53)"
proof -
  have "min a b * (1 - 1 / 2 ^ 53) \<le> a'" "min a b * (1 - 1 / 2 ^ 53) \<le> b'"
    using assms by (simp_all add: algebra_simps min_def)
  moreover have "min a' b' \<le> min a b * (1 + 1 / 2 ^ 53)"
    using assms by (simp add: algebra_simps min_def)
  ultimately show ?thesis
    by simp
qed

lemma binary64_rel:
  assumes "1 / 2 ^ 33 \<le> v"
  shows "v * (1 - 1 / 2 ^ 53) \<le> binary64 v \<and> binary64 v \<le> v * (1 + 1 / 2 ^ 53)"
proof -
  have v: "0 < v"
    using assms by (rule less_le_trans [rotated]) simp
  have "2 powi (- 1022) \<le> \<bar>v\<bar>"
    using powi2_normal assms v by linarith
  then have "\<bar>binary64 v - v\<bar> \<le> \<bar>v\<bar> / 2 ^ 53"
    by (rule binary64_error)
  then have "\<bar>binary64 v - v\<bar> \<le> v / 2 ^ 53"
    using v by simp
  then show ?thesis
    using abs_diff_leD [of "binary64 v" v "v / 2 ^ 53"] by (simp add: algebra_simps)
qed

lemma exactQuotient_bounds:
  assumes "0 < mw" "0 < mh" "0 \<le> w" "0 \<le> h" "w > mw \<or> h > mh"
  shows "0 \<le> exactQuotient mw w mh h \<and> exactQuotient mw w mh h \<le> 1 \<and>
         w * exactQuotient mw w mh h \<le> mw \<and> h * exactQuotient mw w mh h \<le> mh"
proof (cases "w = 0")
  case True
  then have "h > mh"
    using assms by auto
  then show ?thesis
    using True assms by (simp add: exactQuotient_def)
next
  case w: False
  show ?thesis
  proof (cases "h = 0")
    case True
    then have "w > mw"
      using assms by auto
    then show ?thesis
      using True w assms by (simp add: exactQuotient_def)
  next
    case h: False
    have wp: "0 < w" and hp: "0 < h"
      using w h assms by auto
    have m: "exactQuotient mw w mh h = min (mw / w) (mh / h)"
      using w h by (simp add: exactQuotient_def)
    have 1: "min (mw / w) (mh / h) \<le> mw / w" "min (mw / w) (mh / h) \<le> mh / h"
      by simp_all
    have "mw / w < 1 \<or> mh / h < 1"
      using assms wp hp by auto
    then have 2: "min (mw / w) (mh / h) \<le> 1"
      by (auto simp: min_def)
    have 3: "0 \<le> min (mw / w) (mh / h)"
      using assms wp hp by simp
    have "w * min (mw / w) (mh / h) \<le> w * (mw / w)"
      using 1(1) wp by (simp only: mult_le_cancel_left_pos)
    then have 4: "w * min (mw / w) (mh / h) \<le> mw"
      using wp by simp
    have "h * min (mw / w) (mh / h) \<le> h * (mh / h)"
      using 1(2) hp by (simp only: mult_le_cancel_left_pos)
    then have 5: "h * min (mw / w) (mh / h) \<le> mh"
      using hp by simp
    show ?thesis
      unfolding m using 2 3 4 5 by simp
  qed
qed

lemma quotient_lower:
  assumes "1 \<le> m" "0 < d" "d < 2 ^ 32"
  shows "1 / 2 ^ 32 \<le> m / (d::real)"
proof -
  have "1 / 2 ^ 32 \<le> 1 / d"
    using assms by (simp add: field_simps)
  also have "\<dots> \<le> m / d"
    using assms by (simp add: divide_right_mono)
  finally show ?thesis .
qed

lemma exactQuotient_lower:
  assumes "1 \<le> mw" "1 \<le> mh" "0 \<le> w" "0 \<le> h" "w < 2 ^ 32" "h < 2 ^ 32" "w > mw \<or> h > mh"
  shows "1 / 2 ^ 32 \<le> exactQuotient mw w mh h"
proof -
  have a: "1 / 2 ^ 32 \<le> mw / w" if "w \<noteq> 0"
    using that assms by (intro quotient_lower) simp_all
  have b: "1 / 2 ^ 32 \<le> mh / h" if "h \<noteq> 0"
    using that assms by (intro quotient_lower) simp_all
  have "w \<noteq> 0 \<or> h \<noteq> 0"
    using assms by auto
  then show ?thesis
    using a b by (auto simp: exactQuotient_def min_def)
qed

lemma minQuotient_rel:
  assumes "1 \<le> mw" "1 \<le> mh" "0 \<le> w" "0 \<le> h" "w < 2 ^ 32" "h < 2 ^ 32" "w > mw \<or> h > mh"
  shows "exactQuotient mw w mh h * (1 - 1 / 2 ^ 53) \<le> minQuotient mw w mh h \<and>
         minQuotient mw w mh h \<le> exactQuotient mw w mh h * (1 + 1 / 2 ^ 53)"
proof -
  have a: "mw / w * (1 - 1 / 2 ^ 53) \<le> binary64 (mw / w) \<and>
      binary64 (mw / w) \<le> mw / w * (1 + 1 / 2 ^ 53)" if "w \<noteq> 0"
  proof (rule binary64_rel)
    have "1 / 2 ^ 32 \<le> mw / w"
      using that assms by (intro quotient_lower) simp_all
    then show "1 / 2 ^ 33 \<le> mw / w"
      by (rule order_trans [rotated]) simp
  qed
  have b: "mh / h * (1 - 1 / 2 ^ 53) \<le> binary64 (mh / h) \<and>
      binary64 (mh / h) \<le> mh / h * (1 + 1 / 2 ^ 53)" if "h \<noteq> 0"
  proof (rule binary64_rel)
    have "1 / 2 ^ 32 \<le> mh / h"
      using that assms by (intro quotient_lower) simp_all
    then show "1 / 2 ^ 33 \<le> mh / h"
      by (rule order_trans [rotated]) simp
  qed
  have c: "w \<noteq> 0 \<or> h \<noteq> 0"
    using assms by auto
  show ?thesis
  proof (cases "w = 0")
    case True
    then show ?thesis
      using b c by (simp add: exactQuotient_def minQuotient_def)
  next
    case w: False
    show ?thesis
    proof (cases "h = 0")
      case True
      then show ?thesis
        using a w by (simp add: exactQuotient_def minQuotient_def)
    next
      case h: False
      have e: "exactQuotient mw w mh h = min (mw / w) (mh / h)"
        "minQuotient mw w mh h = min (binary64 (mw / w)) (binary64 (mh / h))"
        using w h by (simp_all add: exactQuotient_def minQuotient_def)
      show ?thesis
        unfolding e using a [OF w] b [OF h] by (rule rel_min)
    qed
  qed
qed

lemma product_round:
  assumes "1 / 2 ^ 32 \<le> e" "e * (1 - 1 / 2 ^ 53) \<le> sc" "sc \<le> e * (1 + 1 / 2 ^ 53)"
    "1 \<le> d" "d * e \<le> 2048"
  shows "\<bar>binary64 (d * sc) - d * e\<bar> \<le> 1 / 2 ^ 40"
proof -
  define t where "t = d * e"
  define p where "p = d * sc"
  have d0: "0 \<le> d"
    using assms(4) by simp
  have "d * (e * (1 - 1 / 2 ^ 53)) \<le> d * sc" "d * sc \<le> d * (e * (1 + 1 / 2 ^ 53))"
    using assms(2,3) d0 by (simp_all only: mult_left_mono)
  then have p: "t * (1 - 1 / 2 ^ 53) \<le> p" "p \<le> t * (1 + 1 / 2 ^ 53)"
    unfolding t_def p_def by (simp_all only: mult.assoc)
  have "1 * (1 / 2 ^ 32) \<le> d * e"
    using assms(1,4) by (intro mult_mono) simp_all
  then have t: "1 / 2 ^ 32 \<le> t" "t \<le> 2048"
    using assms(5) by (simp_all add: t_def)
  have "1 / 2 ^ 33 \<le> p"
    using p(1) t(1) by (simp add: algebra_simps)
  then have r: "p * (1 - 1 / 2 ^ 53) \<le> binary64 p" "binary64 p \<le> p * (1 + 1 / 2 ^ 53)"
    using binary64_rel [of p] by simp_all
  have "\<bar>binary64 p - t\<bar> \<le> 1 / 2 ^ 40"
  proof (rule abs_diff_leI)
    show "binary64 p - t \<le> 1 / 2 ^ 40"
      using p t r by (simp add: algebra_simps)
    show "t - binary64 p \<le> 1 / 2 ^ 40"
      using p t r by (simp add: algebra_simps)
  qed
  then show ?thesis
    unfolding p_def t_def .
qed

lemma floor_near:
  fixes v t :: real
  assumes "\<bar>v - t\<bar> \<le> 1 / 2 ^ 40" "t * real d = real n" "0 < d" "d < 2 ^ 32"
  shows "\<lfloor>v\<rfloor> = \<lfloor>t\<rfloor> \<or> real_of_int \<lfloor>v\<rfloor> + 1 = t"
proof -
  define k where "k = \<lfloor>t\<rfloor>"
  have k: "real_of_int k \<le> t" "t < real_of_int k + 1"
    unfolding k_def by linarith+
  have dr: "0 < real d" "real d < 2 ^ 32"
    using assms(3,4) by simp_all
  have di: "1 / real d > 1 / 2 ^ 32"
    using dr by (simp add: field_simps)
  show ?thesis
  proof (cases "t = real_of_int k")
    case True
    have "real_of_int k - 1 \<le> v" "v < real_of_int k + 1"
      using abs_diff_leD [OF assms(1)] True by (simp_all add: algebra_simps)
    then have "real_of_int (k - 1) \<le> v" "v < real_of_int (k + 1)"
      by simp_all
    then have "k - 1 \<le> \<lfloor>v\<rfloor>" "\<lfloor>v\<rfloor> < k + 1"
      by (simp_all only: le_floor_iff floor_less_iff)
    then have "\<lfloor>v\<rfloor> = k \<or> \<lfloor>v\<rfloor> = k - 1"
      by linarith
    then show ?thesis
    proof
      assume "\<lfloor>v\<rfloor> = k"
      then show ?thesis
        unfolding k_def by (rule disjI1)
    next
      assume a: "\<lfloor>v\<rfloor> = k - 1"
      have "real_of_int \<lfloor>v\<rfloor> + 1 = real_of_int k"
        unfolding a by simp
      then have "real_of_int \<lfloor>v\<rfloor> + 1 = t"
        unfolding True .
      then show ?thesis
        by (rule disjI2)
    qed
  next
    case False
    then have lt: "real_of_int k < t"
      using k(1) by simp
    have "real_of_int (int n - k * int d) = (t - real_of_int k) * real d"
      using assms(2) by (simp add: left_diff_distrib)
    moreover have "0 < (t - real_of_int k) * real d"
      using lt dr by simp
    ultimately have "0 < real_of_int (int n - k * int d)"
      by simp
    then have "0 < int n - k * int d"
      by (simp only: of_int_0_less_iff)
    then have "1 \<le> int n - k * int d"
      by linarith
    then have "1 \<le> real_of_int (int n - k * int d)"
      by (simp only: of_int_1_le_iff)
    then have lo: "1 \<le> (t - real_of_int k) * real d"
      using assms(2) by (simp add: left_diff_distrib)
    have "real_of_int ((k + 1) * int d - int n) = (real_of_int k + 1 - t) * real d"
      using assms(2) by (simp add: left_diff_distrib distrib_right)
    moreover have "0 < (real_of_int k + 1 - t) * real d"
      using k(2) dr by simp
    ultimately have "0 < real_of_int ((k + 1) * int d - int n)"
      by simp
    then have "0 < (k + 1) * int d - int n"
      by (simp only: of_int_0_less_iff)
    then have "1 \<le> (k + 1) * int d - int n"
      by linarith
    then have "1 \<le> real_of_int ((k + 1) * int d - int n)"
      by (simp only: of_int_1_le_iff)
    then have hi: "1 \<le> (real_of_int k + 1 - t) * real d"
      using assms(2) by (simp add: left_diff_distrib distrib_right)
    have "1 / real d \<le> t - real_of_int k" "1 / real d \<le> real_of_int k + 1 - t"
      using lo hi dr by (simp_all add: field_simps)
    then have "real_of_int k \<le> v" "v < real_of_int k + 1"
      using abs_diff_leD [OF assms(1)] di by (simp_all add: algebra_simps)
    then have "\<lfloor>v\<rfloor> = k"
      by (simp add: floor_eq_iff)
    then show ?thesis
      by (simp add: k_def)
  qed
qed


lemma qualitySettings_nat:
  assumes "qualitySettings q = Some (mw, mh)"
  shows "\<exists>a b. mw = real a \<and> mh = real b \<and> 1 \<le> a \<and> a \<le> 2048 \<and> 1 \<le> b \<and> b \<le> 2048 \<and>
           q \<noteq> Original"
proof (cases q)
  case Fast
  then have "mw = real 800 \<and> mh = real 600"
    using assms by simp
  then show ?thesis
    using Fast by (intro exI [of _ 800] exI [of _ 600]) simp
next
  case Standard
  then have "mw = real 1280 \<and> mh = real 720"
    using assms by simp
  then show ?thesis
    using Standard by (intro exI [of _ 1280] exI [of _ 720]) simp
next
  case High
  then have "mw = real 1920 \<and> mh = real 1080"
    using assms by simp
  then show ?thesis
    using High by (intro exI [of _ 1920] exI [of _ 1080]) simp
next
  case Original
  then show ?thesis
    using assms by simp
qed

lemma scaleDimensions_unscaled:
  assumes "qualitySettings q = None \<or>
    (\<exists>mw mh. qualitySettings q = Some (mw, mh) \<and> \<not> (w > mw \<or> h > mh))"
  shows "scaleDimensions q w h = (w, h)"
  using assms by (auto simp: scaleDimensions_def)

lemma scaleDimensions_scaled:
  assumes "qualitySettings q = Some (mw, mh)" "w > mw \<or> h > mh"
  shows "scaleDimensions q w h =
    (binary64 (w * minQuotient mw w mh h), binary64 (h * minQuotient mw w mh h))"
proof -
  have "q \<noteq> Original"
    using assms(1) by (cases q) simp_all
  then show ?thesis
    using assms by (simp add: scaleDimensions_def Let_def)
qed

lemma scaled_near:
  assumes q: "qualitySettings q = Some (mw, mh)" and big: "real w > mw \<or> real h > mh"
    and w: "w < 2 ^ 32" and h: "h < 2 ^ 32"
  shows "\<bar>fst (scaleDimensions q (real w) (real h)) -
            real w * exactQuotient mw (real w) mh (real h)\<bar> \<le> 1 / 2 ^ 40 \<and>
         \<bar>snd (scaleDimensions q (real w) (real h)) -
            real h * exactQuotient mw (real w) mh (real h)\<bar> \<le> 1 / 2 ^ 40"
proof -
  obtain a b where ab: "mw = real a" "mh = real b" "1 \<le> a" "a \<le> 2048" "1 \<le> b" "b \<le> 2048"
    using qualitySettings_nat [OF q] by blast
  define e where "e = exactQuotient mw (real w) mh (real h)"
  define sc where "sc = minQuotient mw (real w) mh (real h)"
  have m: "1 \<le> mw" "1 \<le> mh" "mw \<le> 2048" "mh \<le> 2048"
    using ab by simp_all
  have wr: "real w < 2 ^ 32" and hr: "real h < 2 ^ 32"
    using w h by (simp_all add: of_nat_less_numeral_power_cancel_iff)
  have eb: "0 \<le> e" "e \<le> 1" "real w * e \<le> mw" "real h * e \<le> mh"
    unfolding e_def using exactQuotient_bounds [of mw mh "real w" "real h"] m big by simp_all
  have el: "1 / 2 ^ 32 \<le> e"
    unfolding e_def using m big wr hr by (intro exactQuotient_lower) simp_all
  have rel: "e * (1 - 1 / 2 ^ 53) \<le> sc" "sc \<le> e * (1 + 1 / 2 ^ 53)"
    unfolding e_def sc_def
    using minQuotient_rel [of mw mh "real w" "real h"] m big wr hr by simp_all
  have d: "scaleDimensions q (real w) (real h) = (binary64 (real w * sc), binary64 (real h * sc))"
    unfolding sc_def using q big by (rule scaleDimensions_scaled)
  have 1: "\<bar>binary64 (real w * sc) - real w * e\<bar> \<le> 1 / 2 ^ 40"
  proof (cases "w = 0")
    case True
    then show ?thesis
      by (simp add: binary64_zero)
  next
    case False
    then have "1 \<le> real w"
      by simp
    moreover have "real w * e \<le> 2048"
      using eb(3) m(3) by simp
    ultimately show ?thesis
      using el rel by (intro product_round) simp_all
  qed
  have 2: "\<bar>binary64 (real h * sc) - real h * e\<bar> \<le> 1 / 2 ^ 40"
  proof (cases "h = 0")
    case True
    then show ?thesis
      by (simp add: binary64_zero)
  next
    case False
    then have "1 \<le> real h"
      by simp
    moreover have "real h * e \<le> 2048"
      using eb(4) m(4) by simp
    ultimately show ?thesis
      using el rel by (intro product_round) simp_all
  qed
  show ?thesis
    unfolding d e_def [symmetric] using 1 2 by simp
qed

lemma canvasSize_near:
  assumes "\<bar>v - t\<bar> \<le> 1 / 2 ^ 40" "t \<le> real n"
  shows "canvasSize v \<le> n"
proof -
  have "v < real_of_int (int n + 1)"
    using abs_diff_leD [OF assms(1)] assms(2) by (simp add: algebra_simps)
  then have "\<lfloor>v\<rfloor> < int n + 1"
    by (simp only: floor_less_iff)
  then show ?thesis
    by (simp add: canvasSize_def)
qed

lemma scaleDimensions_nonneg:
  "0 \<le> w \<Longrightarrow> 0 \<le> h \<Longrightarrow>
   0 \<le> fst (scaleDimensions q w h) \<and> 0 \<le> snd (scaleDimensions q w h)"
proof -
  assume w: "0 \<le> w" and h: "0 \<le> h"
  have s: "0 \<le> minQuotient mw w mh h" if "0 \<le> mw" "0 \<le> mh" for mw mh
    using that w h by (simp add: minQuotient_def binary64_nonneg min_def)
  show ?thesis
  proof (cases "qualitySettings q")
    case None
    then show ?thesis
      using w h by (simp add: scaleDimensions_def)
  next
    case (Some a)
    obtain mw mh where a: "a = (mw, mh)"
      by (cases a)
    have p: "0 < mw" "0 < mh"
      using qualitySettings_pos Some a by auto
    have "0 \<le> w * minQuotient mw w mh h" "0 \<le> h * minQuotient mw w mh h"
      using s [of mw mh] p w h by simp_all
    then have "0 \<le> binary64 (w * minQuotient mw w mh h)"
      "0 \<le> binary64 (h * minQuotient mw w mh h)"
      by (simp_all only: binary64_nonneg)
    then show ?thesis
      using Some a w h by (simp add: scaleDimensions_def Let_def)
  qed
qed

lemma scaleDimensions_canvas:
  assumes w: "w < 2 ^ 32" and h: "h < 2 ^ 32"
  shows "canvasSize (fst (scaleDimensions q (real w) (real h))) \<le> w \<and>
         canvasSize (snd (scaleDimensions q (real w) (real h))) \<le> h \<and>
         (\<forall>a b. qualitySettings q = Some (real a, real b) \<longrightarrow>
            canvasSize (fst (scaleDimensions q (real w) (real h))) \<le> a \<and>
            canvasSize (snd (scaleDimensions q (real w) (real h))) \<le> b)"
proof (cases "qualitySettings q = None \<or>
    (\<exists>mw mh. qualitySettings q = Some (mw, mh) \<and> \<not> (real w > mw \<or> real h > mh))")
  case True
  then have d: "scaleDimensions q (real w) (real h) = (real w, real h)"
    by (rule scaleDimensions_unscaled)
  have "canvasSize (real w) \<le> a \<and> canvasSize (real h) \<le> b"
    if "qualitySettings q = Some (real a, real b)" for a b
    using True that by (auto simp: canvasSize_def)
  then show ?thesis
    unfolding d by (simp add: canvasSize_def)
next
  case False
  then obtain mw mh where q: "qualitySettings q = Some (mw, mh)"
    and big: "real w > mw \<or> real h > mh"
    by (cases "qualitySettings q") auto
  define e where "e = exactQuotient mw (real w) mh (real h)"
  have p: "0 < mw" "0 < mh"
    using qualitySettings_pos [OF q] by simp_all
  have eb: "e \<le> 1" "real w * e \<le> mw" "real h * e \<le> mh"
    unfolding e_def using exactQuotient_bounds [of mw mh "real w" "real h"] p big by simp_all
  have n: "\<bar>fst (scaleDimensions q (real w) (real h)) - real w * e\<bar> \<le> 1 / 2 ^ 40"
    "\<bar>snd (scaleDimensions q (real w) (real h)) - real h * e\<bar> \<le> 1 / 2 ^ 40"
    unfolding e_def using scaled_near [OF q big w h] by simp_all
  have "real w * e \<le> real w * 1" "real h * e \<le> real h * 1"
    using eb(1) by (simp_all only: mult_left_mono of_nat_0_le_iff)
  then have s: "real w * e \<le> real w" "real h * e \<le> real h"
    by simp_all
  have 1: "canvasSize (fst (scaleDimensions q (real w) (real h))) \<le> w"
    using n(1) s(1) by (rule canvasSize_near)
  have 2: "canvasSize (snd (scaleDimensions q (real w) (real h))) \<le> h"
    using n(2) s(2) by (rule canvasSize_near)
  have 3: "canvasSize (fst (scaleDimensions q (real w) (real h))) \<le> a \<and>
      canvasSize (snd (scaleDimensions q (real w) (real h))) \<le> b"
    if "qualitySettings q = Some (real a, real b)" for a b
  proof -
    have m: "mw = real a" "mh = real b"
      using q that by simp_all
    show ?thesis
      using canvasSize_near [OF n(1)] canvasSize_near [OF n(2)] eb(2,3) unfolding m by simp
  qed
  show ?thesis
    using 1 2 3 by blast
qed

lemma scaleDimensions_floor:
  assumes q: "qualitySettings q = Some (mw, mh)" and big: "real w > mw \<or> real h > mh"
    and w: "w < 2 ^ 32" and h: "h < 2 ^ 32" and w0: "0 < w" and h0: "0 < h"
  shows "(int (canvasSize (fst (scaleDimensions q (real w) (real h)))) =
            \<lfloor>real w * min (mw / real w) (mh / real h)\<rfloor> \<or>
          real (canvasSize (fst (scaleDimensions q (real w) (real h)))) + 1 =
            real w * min (mw / real w) (mh / real h)) \<and>
         (int (canvasSize (snd (scaleDimensions q (real w) (real h)))) =
            \<lfloor>real h * min (mw / real w) (mh / real h)\<rfloor> \<or>
          real (canvasSize (snd (scaleDimensions q (real w) (real h)))) + 1 =
            real h * min (mw / real w) (mh / real h))"
proof -
  obtain a b where ab: "mw = real a" "mh = real b"
    using qualitySettings_nat [OF q] by blast
  define e where "e = min (mw / real w) (mh / real h)"
  have ee: "exactQuotient mw (real w) mh (real h) = e"
    using w0 h0 by (simp add: exactQuotient_def e_def)
  define v1 where "v1 = fst (scaleDimensions q (real w) (real h))"
  define v2 where "v2 = snd (scaleDimensions q (real w) (real h))"
  have n: "\<bar>v1 - real w * e\<bar> \<le> 1 / 2 ^ 40" "\<bar>v2 - real h * e\<bar> \<le> 1 / 2 ^ 40"
    unfolding v1_def v2_def using scaled_near [OF q big w h] unfolding ee by simp_all
  have nn: "0 \<le> v1" "0 \<le> v2"
    unfolding v1_def v2_def using scaleDimensions_nonneg [of "real w" "real h" q] by simp_all
  have c: "int (canvasSize v1) = \<lfloor>v1\<rfloor>" "int (canvasSize v2) = \<lfloor>v2\<rfloor>"
    using nn by (simp_all add: canvasSize_def)
  have wr: "0 < real w" and hr: "0 < real h"
    using w0 h0 by simp_all
  have f1: "\<lfloor>v1\<rfloor> = \<lfloor>real w * e\<rfloor> \<or> real_of_int \<lfloor>v1\<rfloor> + 1 = real w * e"
  proof (cases "mw / real w \<le> mh / real h")
    case True
    then have t: "real w * e * real 1 = real a"
      using wr by (simp add: e_def min_def ab)
    show ?thesis
      by (rule floor_near [OF n(1) t]) simp_all
  next
    case False
    then have t: "real w * e * real h = real (w * b)"
      using hr by (simp add: e_def min_def ab)
    show ?thesis
      by (rule floor_near [OF n(1) t h0 h])
  qed
  have f2: "\<lfloor>v2\<rfloor> = \<lfloor>real h * e\<rfloor> \<or> real_of_int \<lfloor>v2\<rfloor> + 1 = real h * e"
  proof (cases "mw / real w \<le> mh / real h")
    case True
    then have t: "real h * e * real w = real (h * a)"
      using wr by (simp add: e_def min_def ab)
    show ?thesis
      by (rule floor_near [OF n(2) t w0 w])
  next
    case False
    then have t: "real h * e * real 1 = real b"
      using hr by (simp add: e_def min_def ab)
    show ?thesis
      by (rule floor_near [OF n(2) t]) simp_all
  qed
  have g1: "int (canvasSize v1) = \<lfloor>real w * e\<rfloor> \<or> real (canvasSize v1) + 1 = real w * e"
    using f1
  proof
    assume "\<lfloor>v1\<rfloor> = \<lfloor>real w * e\<rfloor>"
    then show ?thesis
      using c(1) by simp
  next
    assume a: "real_of_int \<lfloor>v1\<rfloor> + 1 = real w * e"
    have "real (canvasSize v1) = real_of_int (int (canvasSize v1))"
      by simp
    then have "real (canvasSize v1) = real_of_int \<lfloor>v1\<rfloor>"
      unfolding c(1) .
    then show ?thesis
      using a by simp
  qed
  have g2: "int (canvasSize v2) = \<lfloor>real h * e\<rfloor> \<or> real (canvasSize v2) + 1 = real h * e"
    using f2
  proof
    assume "\<lfloor>v2\<rfloor> = \<lfloor>real h * e\<rfloor>"
    then show ?thesis
      using c(2) by simp
  next
    assume a: "real_of_int \<lfloor>v2\<rfloor> + 1 = real h * e"
    have "real (canvasSize v2) = real_of_int (int (canvasSize v2))"
      by simp
    then have "real (canvasSize v2) = real_of_int \<lfloor>v2\<rfloor>"
      unfolding c(2) .
    then show ?thesis
      using a by simp
  qed
  show ?thesis
    using g1 g2 unfolding v1_def v2_def e_def by simp
qed

section \<open>Properties of the classic outline\<close>

lemma strokePiece_classic:
  "pieceStyle st = Classic \<Longrightarrow>
   strokePiece st width height pw ph seed pat row col =
     drawRealisticPuzzlePiece width height (binary64 (real col * pw)) (binary64 (real row * ph))
       pw ph (pat ! row ! col) @ [Stroke]"
  by (simp add: strokePiece_def Let_def)

lemma topEdge_border: "topEdge x 0 w h tabs = [LineTo (x + w) 0]"
  by (simp add: topEdge_def)

lemma leftEdge_border: "leftEdge 0 y w h tabs = [LineTo 0 y]"
  by (simp add: leftEdge_def)

lemma first_row_first_column:
  "binary64 (real (0::nat) * pieceHeight) = 0 \<and> binary64 (real (0::nat) * pieceWidth) = 0"
  by (simp add: binary64_zero)

lemma rightEdge_blank:
  assumes "\<not> rightE tabs" "binary64 (x + w) < width"
  shows "rightEdge width x y w h tabs =
     (let tabSize = min w h * 0.2;
          tabRadius = tabSize * 0.8;
          midY = y + h / 2
      in [LineTo (x + w) (midY - tabSize * 0.6),
          QuadraticCurveTo (x + w - tabRadius * 0.3) (midY - tabSize * 0.4)
            (x + w - tabRadius) (midY - tabSize * 0.3),
          QuadraticCurveTo (x + w - tabRadius * 1.2) midY
            (x + w - tabRadius) (midY + tabSize * 0.3),
          QuadraticCurveTo (x + w - tabRadius * 0.3) (midY + tabSize * 0.4)
            (x + w) (midY + tabSize * 0.6),
          LineTo (x + w) (y + h)])"
  using assms unfolding rightEdge_def Let_def by (simp only: if_False if_True simp_thms)

lemma last_column_sum:
  "binary64 (binary64 (5 * binary64 (1024 / 6)) + binary64 (1024 / 6)) < 1024"
proof -
  have pw: "binary64 (1024 / 6) = real_of_int 6004799503160661 / 2 ^ 45"
    by (rule binary64_value) (simp_all add: roundEven_def)
  have x: "binary64 (5 * (real_of_int 6004799503160661 / 2 ^ 45)) =
      real_of_int 7505999378950826 / 2 ^ 43"
    by (rule binary64_value) (simp_all add: roundEven_def)
  have s: "binary64 (real_of_int 7505999378950826 / 2 ^ 43 + real_of_int 6004799503160661 / 2 ^ 45) =
      real_of_int 9007199254740991 / 2 ^ 43"
    by (rule binary64_value) (simp_all add: roundEven_def)
  show ?thesis
    unfolding pw x s by simp
qed

section \<open>Properties of the abstract outline\<close>

lemma sum_lessThan_numeral:
  "(\<Sum>m<numeral k. f m) = (\<Sum>m<pred_numeral k. f m) + (f (pred_numeral k) :: real)"
  by (simp add: numeral_eq_Suc)

lemma sinPoly_sum: "(\<Sum>m<16. sin_coeff m * x ^ m) = sinPoly x"
  by (simp add: sum_lessThan_numeral sin_coeff_def sinPoly_def fact_numeral Let_def
      power_numeral_reduce algebra_simps)

lemma cosPoly_sum: "(\<Sum>m<20. cos_coeff m * x ^ m) = cosPoly x"
  by (simp add: sum_lessThan_numeral cos_coeff_def cosPoly_def fact_numeral Let_def
      power_numeral_reduce algebra_simps)

lemma power_le_of_abs_le:
  fixes x :: real
  assumes "\<bar>x\<bar> \<le> b"
  shows "\<bar>x\<bar> ^ n \<le> b ^ n"
  using assms by (intro power_mono) simp_all

lemma sinPoly_error:
  assumes "\<bar>x\<bar> \<le> 157 / 100"
  shows "\<bar>sin x - sinPoly x\<bar> \<le> 1 / 10 ^ 10"
proof -
  have "\<bar>sin x - sinPoly x\<bar> \<le> inverse (fact 16) * \<bar>x\<bar> ^ 16"
    using Maclaurin_sin_bound [of x 16] by (simp only: sinPoly_sum)
  also have "\<dots> \<le> inverse (fact 16) * (157 / 100) ^ 16"
    using power_le_of_abs_le [OF assms, of 16] by (simp add: mult_left_mono del: power_mono_iff)
  also have "\<dots> \<le> 1 / 10 ^ 10"
    by (simp add: fact_numeral power_divide)
  finally show ?thesis .
qed

lemma Maclaurin_cos_bound:
  "\<bar>cos x - (\<Sum>m<n. cos_coeff m * x ^ m)\<bar> \<le> \<bar>x\<bar> ^ n / fact n"
proof -
  obtain t where
    e: "cos x = (\<Sum>m<n. cos_coeff m * x ^ m) + cos (t + 1 / 2 * real n * pi) / fact n * x ^ n"
    using Maclaurin_cos_expansion [of x n] by blast
  define c where "c = cos (t + 1 / 2 * real n * pi)"
  define r where "r = \<bar>x\<bar> ^ n / fact n"
  have r: "0 \<le> r"
    by (simp add: r_def)
  have "cos x - (\<Sum>m<n. cos_coeff m * x ^ m) = c / fact n * x ^ n"
    unfolding c_def by (subst e) simp
  then have "\<bar>cos x - (\<Sum>m<n. cos_coeff m * x ^ m)\<bar> = \<bar>c\<bar> * r"
    by (simp add: abs_mult power_abs r_def)
  also have "\<dots> \<le> 1 * r"
    using r by (intro mult_right_mono) (simp_all add: c_def)
  finally show ?thesis
    by (simp add: r_def)
qed

lemma cosPoly_error:
  assumes "\<bar>x\<bar> \<le> 158 / 100"
  shows "\<bar>cos x - cosPoly x\<bar> \<le> 1 / 10 ^ 14"
proof -
  have "\<bar>cos x - cosPoly x\<bar> \<le> \<bar>x\<bar> ^ 20 / fact 20"
    using Maclaurin_cos_bound [of x 20] by (simp only: cosPoly_sum)
  also have "\<dots> \<le> (158 / 100) ^ 20 / fact 20"
    using power_le_of_abs_le [OF assms, of 20] by (simp add: divide_right_mono del: power_mono_iff)
  also have "\<dots> \<le> 1 / 10 ^ 14"
    by (simp add: fact_numeral power_divide)
  finally show ?thesis .
qed

lemma pi_lower: "314159265358 / 100000000000 < pi"
proof -
  let ?x = "157079632679 / 100000000000 :: real"
  have "\<bar>cos ?x - cosPoly ?x\<bar> \<le> 1 / 10 ^ 14"
    by (rule cosPoly_error) simp
  moreover have "1 / 10 ^ 14 < cosPoly ?x"
    by (simp add: cosPoly_def Let_def)
  ultimately have pos: "0 < cos ?x"
    by linarith
  have "?x < pi / 2"
  proof (rule ccontr)
    assume "\<not> ?x < pi / 2"
    then have "pi / 2 \<le> ?x"
      by simp
    moreover have "?x \<le> pi"
      using pi_ge_two by simp
    ultimately have "cos ?x \<le> cos (pi / 2)"
      by (intro cos_monotone_0_pi_le) simp_all
    then show False
      using pos by simp
  qed
  then show ?thesis
    by simp
qed

lemma pi_upper: "pi < 31415926536 / 10000000000"
proof -
  let ?x = "15707963268 / 10000000000 :: real"
  have "\<bar>cos ?x - cosPoly ?x\<bar> \<le> 1 / 10 ^ 14"
    by (rule cosPoly_error) simp
  moreover have "cosPoly ?x < - (1 / 10 ^ 14)"
    by (simp add: cosPoly_def Let_def)
  ultimately have neg: "cos ?x < 0"
    by linarith
  have "pi / 2 < ?x"
  proof (rule ccontr)
    assume "\<not> pi / 2 < ?x"
    then have "?x \<le> pi / 2"
      by simp
    then have "0 \<le> cos ?x"
      by (intro cos_ge_zero) simp_all
    then show False
      using neg by simp
  qed
  then show ?thesis
    by simp
qed


lemma pi_half_gt: "157 / 100 < pi / 2"
  using pi_lower by simp

lemma sin_enclosure:
  assumes "lo \<le> t" "t \<le> hi" "- (157 / 100) \<le> lo" "hi \<le> 157 / 100"
  shows "sinPoly lo - 1 / 10 ^ 10 \<le> sin t \<and> sin t \<le> sinPoly hi + 1 / 10 ^ 10"
proof -
  have a: "\<bar>lo\<bar> \<le> 157 / 100" "\<bar>hi\<bar> \<le> 157 / 100"
    using assms by simp_all
  have "sin lo \<le> sin t"
    using assms pi_half_gt by (intro sin_monotone_2pi_le) simp_all
  moreover have "sin t \<le> sin hi"
    using assms pi_half_gt by (intro sin_monotone_2pi_le) simp_all
  moreover have "\<bar>sin lo - sinPoly lo\<bar> \<le> 1 / 10 ^ 10" "\<bar>sin hi - sinPoly hi\<bar> \<le> 1 / 10 ^ 10"
    using a by (simp_all only: sinPoly_error)
  ultimately show ?thesis
    by linarith
qed

lemma sin_shift: "sin (t + real n * pi) = (- 1) ^ n * sin t"
  by (simp add: sin_add)

lemma frac_enclosure:
  fixes v :: real
  assumes "of_int m + lb \<le> v" "v \<le> of_int m + ub" "0 \<le> lb" "ub < 1"
  shows "lb \<le> v - of_int \<lfloor>v\<rfloor> \<and> v - of_int \<lfloor>v\<rfloor> \<le> ub"
proof -
  have "\<lfloor>v\<rfloor> = m"
    using assms by (intro floor_unique) simp_all
  then show ?thesis
    using assms by simp
qed

lemma random'_enclosure_even:
  assumes "even n"
    and "lo \<le> seed * 9.898 + real index * 78.233 - real n * pi"
    and "seed * 9.898 + real index * 78.233 - real n * pi \<le> hi"
    and "- (157 / 100) \<le> lo" "hi \<le> 157 / 100"
    and "of_int m + lb \<le> (sinPoly lo - 1 / 10 ^ 10) * 43758.5453"
    and "(sinPoly hi + 1 / 10 ^ 10) * 43758.5453 \<le> of_int m + ub"
    and "0 \<le> lb" "ub < 1"
  shows "lb \<le> random' seed index \<and> random' seed index \<le> ub"
proof -
  define t where "t = seed * 9.898 + real index * 78.233 - real n * pi"
  have "sin (seed * 9.898 + real index * 78.233) = sin (t + real n * pi)"
    by (simp add: t_def)
  then have s: "sin (seed * 9.898 + real index * 78.233) = sin t"
    using assms(1) by (simp only: sin_shift) simp
  have e: "sinPoly lo - 1 / 10 ^ 10 \<le> sin t \<and> sin t \<le> sinPoly hi + 1 / 10 ^ 10"
    using assms(2-5) unfolding t_def [symmetric] by (rule sin_enclosure)
  have "(sinPoly lo - 1 / 10 ^ 10) * 43758.5453 \<le> sin t * 43758.5453"
    "sin t * 43758.5453 \<le> (sinPoly hi + 1 / 10 ^ 10) * 43758.5453"
    using e by simp_all
  then have "of_int m + lb \<le> sin t * 43758.5453" "sin t * 43758.5453 \<le> of_int m + ub"
    using assms(6,7) by linarith+
  then show ?thesis
    unfolding random'_def Let_def s using assms(8,9) by (rule frac_enclosure)
qed

lemma random'_enclosure_odd:
  assumes "odd n"
    and "lo \<le> seed * 9.898 + real index * 78.233 - real n * pi"
    and "seed * 9.898 + real index * 78.233 - real n * pi \<le> hi"
    and "- (157 / 100) \<le> lo" "hi \<le> 157 / 100"
    and "of_int m + lb \<le> - ((sinPoly hi + 1 / 10 ^ 10) * 43758.5453)"
    and "- ((sinPoly lo - 1 / 10 ^ 10) * 43758.5453) \<le> of_int m + ub"
    and "0 \<le> lb" "ub < 1"
  shows "lb \<le> random' seed index \<and> random' seed index \<le> ub"
proof -
  define t where "t = seed * 9.898 + real index * 78.233 - real n * pi"
  have "sin (seed * 9.898 + real index * 78.233) = sin (t + real n * pi)"
    by (simp add: t_def)
  then have s: "sin (seed * 9.898 + real index * 78.233) = - sin t"
    using assms(1) by (simp only: sin_shift) simp
  have e: "sinPoly lo - 1 / 10 ^ 10 \<le> sin t \<and> sin t \<le> sinPoly hi + 1 / 10 ^ 10"
    using assms(2-5) unfolding t_def [symmetric] by (rule sin_enclosure)
  have "- ((sinPoly hi + 1 / 10 ^ 10) * 43758.5453) \<le> - sin t * 43758.5453"
    "- sin t * 43758.5453 \<le> - ((sinPoly lo - 1 / 10 ^ 10) * 43758.5453)"
    using e by simp_all
  then have "of_int m + lb \<le> - sin t * 43758.5453" "- sin t * 43758.5453 \<le> of_int m + ub"
    using assms(6,7) by linarith+
  then show ?thesis
    unfolding random'_def Let_def s using assms(8,9) by (rule frac_enclosure)
qed

lemma random'_666_0: "83 / 1000 \<le> random' 666 0 \<and> random' 666 0 \<le> 43 / 500"
proof (rule random'_enclosure_even [where n = 2098 and lo = "50330637 / 50000000" and hi = "100661279 / 100000000" and m = 36977])
  show "even (2098::nat)"
    by simp
  show "50330637 / 50000000 \<le> 666 * 9.898 + real (0::nat) * 78.233 - real (2098::nat) * pi"
    using pi_upper by simp
  show "666 * 9.898 + real (0::nat) * 78.233 - real (2098::nat) * pi \<le> 100661279 / 100000000"
    using pi_lower by simp
  show "of_int 36977 + 83 / 1000 \<le> (sinPoly (50330637 / 50000000) - 1 / 10 ^ 10) * 43758.5453"
    by (simp add: sinPoly_def Let_def)
  show "(sinPoly (100661279 / 100000000) + 1 / 10 ^ 10) * 43758.5453 \<le> of_int 36977 + 43 / 500"
    by (simp add: sinPoly_def Let_def)
qed simp_all

lemma random'_666_2: "7 / 250 \<le> random' 666 2 \<and> random' 666 2 \<le> 4 / 125"
proof (rule random'_enclosure_even [where n = 2148 and lo = "19649003 / 50000000" and hi = "9824503 / 25000000" and m = 16757])
  show "even (2148::nat)"
    by simp
  show "19649003 / 50000000 \<le> 666 * 9.898 + real (2::nat) * 78.233 - real (2148::nat) * pi"
    using pi_upper by simp
  show "666 * 9.898 + real (2::nat) * 78.233 - real (2148::nat) * pi \<le> 9824503 / 25000000"
    using pi_lower by simp
  show "of_int 16757 + 7 / 250 \<le> (sinPoly (19649003 / 50000000) - 1 / 10 ^ 10) * 43758.5453"
    by (simp add: sinPoly_def Let_def)
  show "(sinPoly (9824503 / 25000000) + 1 / 10 ^ 10) * 43758.5453 \<le> of_int 16757 + 4 / 125"
    by (simp add: sinPoly_def Let_def)
qed simp_all

lemma random'_666_11: "39 / 1000 \<le> random' 666 11 \<and> random' 666 11 \<le> 21 / 500"
proof (rule random'_enclosure_even [where n = 2372 and lo = "38661283 / 50000000" and hi = "77322571 / 100000000" and m = 30563])
  show "even (2372::nat)"
    by simp
  show "38661283 / 50000000 \<le> 666 * 9.898 + real (11::nat) * 78.233 - real (2372::nat) * pi"
    using pi_upper by simp
  show "666 * 9.898 + real (11::nat) * 78.233 - real (2372::nat) * pi \<le> 77322571 / 100000000"
    using pi_lower by simp
  show "of_int 30563 + 39 / 1000 \<le> (sinPoly (38661283 / 50000000) - 1 / 10 ^ 10) * 43758.5453"
    by (simp add: sinPoly_def Let_def)
  show "(sinPoly (77322571 / 100000000) + 1 / 10 ^ 10) * 43758.5453 \<le> of_int 30563 + 21 / 500"
    by (simp add: sinPoly_def Let_def)
qed simp_all

lemma random'_666_14: "3 / 100 \<le> random' 666 14 \<and> random' 666 14 \<le> 33 / 1000"
proof (rule random'_enclosure_odd [where n = 2447 and lo = "-460073 / 3125000" and hi = "-14722331 / 100000000" and m = 6419])
  show "odd (2447::nat)"
    by simp
  show "-460073 / 3125000 \<le> 666 * 9.898 + real (14::nat) * 78.233 - real (2447::nat) * pi"
    using pi_upper by simp
  show "666 * 9.898 + real (14::nat) * 78.233 - real (2447::nat) * pi \<le> -14722331 / 100000000"
    using pi_lower by simp
  show "of_int 6419 + 3 / 100 \<le> - ((sinPoly (-14722331 / 100000000) + 1 / 10 ^ 10) * 43758.5453)"
    by (simp add: sinPoly_def Let_def)
  show "- ((sinPoly (-460073 / 3125000) - 1 / 10 ^ 10) * 43758.5453) \<le> of_int 6419 + 33 / 1000"
    by (simp add: sinPoly_def Let_def)
qed simp_all

lemma random'_666_20: "29 / 1000 \<le> random' 666 20 \<and> random' 666 20 \<le> 31 / 1000"
proof (rule random'_enclosure_even [where n = 2596 and lo = "922777 / 800000" and hi = "115347131 / 100000000" and m = 40003])
  show "even (2596::nat)"
    by simp
  show "922777 / 800000 \<le> 666 * 9.898 + real (20::nat) * 78.233 - real (2596::nat) * pi"
    using pi_upper by simp
  show "666 * 9.898 + real (20::nat) * 78.233 - real (2596::nat) * pi \<le> 115347131 / 100000000"
    using pi_lower by simp
  show "of_int 40003 + 29 / 1000 \<le> (sinPoly (922777 / 800000) - 1 / 10 ^ 10) * 43758.5453"
    by (simp add: sinPoly_def Let_def)
  show "(sinPoly (115347131 / 100000000) + 1 / 10 ^ 10) * 43758.5453 \<le> of_int 40003 + 31 / 1000"
    by (simp add: sinPoly_def Let_def)
qed simp_all

lemma random'_666_25: "741 / 1000 \<le> random' 666 25 \<and> random' 666 25 \<le> 149 / 200"
proof (rule random'_enclosure_odd [where n = 2721 and lo = "-7612209 / 20000000" and hi = "-38061039 / 100000000" and m = 16255])
  show "odd (2721::nat)"
    by simp
  show "-7612209 / 20000000 \<le> 666 * 9.898 + real (25::nat) * 78.233 - real (2721::nat) * pi"
    using pi_upper by simp
  show "666 * 9.898 + real (25::nat) * 78.233 - real (2721::nat) * pi \<le> -38061039 / 100000000"
    using pi_lower by simp
  show "of_int 16255 + 741 / 1000 \<le> - ((sinPoly (-38061039 / 100000000) + 1 / 10 ^ 10) * 43758.5453)"
    by (simp add: sinPoly_def Let_def)
  show "- ((sinPoly (-7612209 / 20000000) - 1 / 10 ^ 10) * 43758.5453) \<le> of_int 16255 + 149 / 200"
    by (simp add: sinPoly_def Let_def)
qed simp_all



lemma random'_frac: "random' seed index = frac (sin (seed * 9.898 + real index * 78.233) * 43758.5453)"
  by (simp add: random'_def Let_def frac_def)

lemma random'_range: "0 \<le> random' seed index" "random' seed index < 1"
  unfolding random'_frac by (simp_all add: frac_lt_1)

lemma haloMin_le_haloMax:
  assumes "0 \<le> w"
  shows "haloMin x w \<le> haloMax x w"
proof -
  have "0 \<le> binary64 0.1" "0 \<le> binary64 1.1"
    by (simp_all add: binary64_nonneg)
  then have "0 \<le> w * binary64 0.1" "0 \<le> w * binary64 1.1"
    using assms by simp_all
  then have "0 \<le> binary64 (w * binary64 0.1)" "0 \<le> binary64 (w * binary64 1.1)"
    by (simp_all only: binary64_nonneg)
  then have "x - binary64 (w * binary64 0.1) \<le> x + binary64 (w * binary64 1.1)"
    by linarith
  then show ?thesis
    unfolding haloMin_def haloMax_def by (rule binary64_mono)
qed

lemma clamp_between:
  fixes v :: real
  assumes "lo \<le> hi"
  shows "lo \<le> max lo (min hi v) \<and> max lo (min hi v) \<le> hi"
  using assms by auto

lemma abstractPoint_inClamp:
  assumes "0 \<le> w" "0 \<le> h"
  shows "inClamp x y w h (abstractPoint x y w h seed segments i)"
  unfolding abstractPoint_def Let_def split_beta inClamp_def fst_conv snd_conv
  using clamp_between [OF haloMin_le_haloMax [OF assms(1)]]
    clamp_between [OF haloMin_le_haloMax [OF assms(2)]]
  by blast

lemma abstractPoints_inClamp:
  assumes "0 \<le> w" "0 \<le> h" "p \<in> set (abstractPoints x y w h seed)"
  shows "inClamp x y w h p"
  using assms(3) abstractPoint_inClamp [OF assms(1,2)]
  by (auto simp: abstractPoints_def Let_def)

lemma pathPoints_append: "pathPoints (a @ b) = pathPoints a @ pathPoints b"
  by (simp add: pathPoints_def)

lemma pathPoints_Cons: "pathPoints (c # cs) = cmdPoints c @ pathPoints cs"
  by (simp add: pathPoints_def)

lemma pathPoints_concat: "pathPoints (concat xss) = concat (map pathPoints xss)"
  by (induction xss) (simp_all add: pathPoints_def)

lemma pathPoints_abstractSegment:
  "pathPoints (abstractSegment w h seed points i) =
     (if random' seed (i * 5 + 20) > 0.7 then [kinkPoint w h seed points i] else []) @
     [points ! i]"
  by (simp add: abstractSegment_def pathPoints_def)

lemma pathPoints_drawAbstract:
  "pathPoints (drawAbstractPuzzlePiece x y w h seed) =
     (let points = abstractPoints x y w h seed
      in if length points > 0
         then points ! 0 #
              concat (map (\<lambda>i. (if random' seed (i * 5 + 20) > 0.7
                                  then [kinkPoint w h seed points i] else []) @ [points ! i])
                        [1..<length points])
         else [])"
  by (simp add: drawAbstractPuzzlePiece_def Let_def pathPoints_Cons pathPoints_append
      pathPoints_concat comp_def pathPoints_abstractSegment)
     (simp add: pathPoints_def)

lemma clamp_le:
  fixes v :: real
  assumes "lo \<le> c" "v \<le> c"
  shows "max lo (min hi v) \<le> c"
  using assms by auto

lemma abstractPoint_top_snd:
  assumes "real i / real segments < 0.25"
  shows "snd (abstractPoint x y w h seed segments i) =
     max (haloMin y h) (min (haloMax y h)
       (y + min w h * 0.1 + (random' seed (i * 2) - 0.5) * h * 0.3 +
        (random' seed (i * 3 + 11) - 0.5) * min w h * 0.15))"
  using assms by (simp add: abstractPoint_def Let_def)

lemma haloMin_0_200: "haloMin 0 200 = - 20"
proof -
  have a: "binary64 0.1 = real_of_int 7205759403792794 / 2 ^ 56"
    by (rule binary64_value) (simp_all add: roundEven_def)
  have b: "binary64 (200 * (real_of_int 7205759403792794 / 2 ^ 56)) = real_of_int 5629499534213120 / 2 ^ 48"
    by (rule binary64_value) (simp_all add: roundEven_def)
  have c: "binary64 20 = real_of_int 5629499534213120 / 2 ^ 48"
    by (rule binary64_value) (simp_all add: roundEven_def)
  have "binary64 (0 - real_of_int 5629499534213120 / 2 ^ 48) = binary64 (- 20)"
    by simp
  also have "\<dots> = - 20"
    unfolding binary64_minus c by simp
  finally show ?thesis
    unfolding haloMin_def a b .
qed

lemma segments_666: "nat (12 + \<lfloor>random' 666 0 * 8\<rfloor>) = 12"
proof -
  have "\<lfloor>random' 666 0 * 8\<rfloor> = 0"
    using random'_666_0 by (intro floor_unique) simp_all
  then show ?thesis
    by simp
qed

lemma points_666:
  "abstractPoints 0 0 300 200 666 = map (abstractPoint 0 0 300 200 666 12) [0..<12]"
  by (simp add: abstractPoints_def Let_def segments_666 del: upt_Suc)

lemma point0_666: "snd (abstractPoint 0 0 300 200 666 12 0) \<le> - 18"
proof -
  define a where "a = random' 666 0"
  define b where "b = random' 666 11"
  have ab: "a \<le> 43 / 500" "b \<le> 21 / 500"
    using random'_666_0 random'_666_11 by (simp_all add: a_def b_def)
  have e: "snd (abstractPoint 0 0 300 200 666 12 0) =
      max (haloMin 0 200) (min (haloMax 0 200)
        (0 + min 300 200 * 0.1 + (a - 0.5) * 200 * 0.3 + (b - 0.5) * min 300 200 * 0.15))"
    unfolding a_def b_def by (subst abstractPoint_top_snd) simp_all
  have v: "0 + min 300 200 * 0.1 + (a - 0.5) * 200 * 0.3 + (b - 0.5) * min 300 200 * 0.15 \<le> - 18"
    using ab by (simp add: algebra_simps)
  show ?thesis
    unfolding e by (rule clamp_le [OF _ v]) (simp add: haloMin_0_200)
qed

lemma point1_666: "snd (abstractPoint 0 0 300 200 666 12 1) \<le> - 20"
proof -
  define a where "a = random' 666 2"
  define b where "b = random' 666 14"
  have ab: "a \<le> 4 / 125" "b \<le> 33 / 1000"
    using random'_666_2 random'_666_14 by (simp_all add: a_def b_def)
  have e: "snd (abstractPoint 0 0 300 200 666 12 1) =
      max (haloMin 0 200) (min (haloMax 0 200)
        (0 + min 300 200 * 0.1 + (a - 0.5) * 200 * 0.3 + (b - 0.5) * min 300 200 * 0.15))"
    unfolding a_def b_def by (subst abstractPoint_top_snd) simp_all
  have v: "0 + min 300 200 * 0.1 + (a - 0.5) * 200 * 0.3 + (b - 0.5) * min 300 200 * 0.15 \<le> - 20"
    using ab by (simp add: algebra_simps)
  show ?thesis
    unfolding e by (rule clamp_le [OF _ v]) (simp add: haloMin_0_200)
qed

lemma kink1_666:
  "snd (kinkPoint 300 200 666 (abstractPoints 0 0 300 200 666) 1) < - 28"
proof -
  define c where "c = random' 666 20"
  define p0 where "p0 = snd (abstractPoint 0 0 300 200 666 12 0)"
  define p1 where "p1 = snd (abstractPoint 0 0 300 200 666 12 1)"
  have c: "c \<le> 31 / 1000"
    using random'_666_20 by (simp add: c_def)
  have p: "p0 \<le> - 18" "p1 \<le> - 20"
    unfolding p0_def p1_def by (rule point0_666, rule point1_666)
  have "snd (kinkPoint 300 200 666 (abstractPoints 0 0 300 200 666) 1) =
      (p1 + p0) / 2 + (c - 0.5) * min 300 200 * 0.1"
    by (simp add: kinkPoint_def Let_def points_666 p0_def p1_def c_def del: upt_Suc)
  also have "\<dots> < - 28"
  proof -
    have "(p1 + p0) / 2 \<le> - 19"
      using p by argo
    moreover have "(c - 0.5) * min 300 200 * 0.1 \<le> - (938 / 100)"
      using c by (simp add: algebra_simps)
    ultimately show ?thesis
      by argo
  qed
  finally show ?thesis .
qed

lemma kink1_666_drawn:
  "kinkPoint 300 200 666 (abstractPoints 0 0 300 200 666) 1 \<in>
     set (pathPoints (drawAbstractPuzzlePiece 0 0 300 200 666))"
proof -
  have l: "length (abstractPoints 0 0 300 200 666) = 12"
    by (simp add: points_666 del: upt_Suc)
  have r: "0.7 < random' 666 (1 * 5 + 20)"
    using random'_666_25 by simp
  have u: "[1..<12] = 1 # [2..<12]"
    by (simp add: upt_conv_Cons)
  show ?thesis
    unfolding pathPoints_drawAbstract Let_def l u using r by simp
qed

section \<open>The claims\<close>

text \<open>
  Claim C1.  For a grid with at least three rows and three columns, whatever numbers the
  random source returns: after the initialisation pass and the row-major propagation
  pass, a cell's right flag is the negation of the left flag of its right neighbour, a
  cell's bottom flag is the negation of the top flag of the neighbour below, and the
  flags on the border of the grid (top of row 0, right of the last column, bottom of
  the last row, left of column 0) are false.
\<close>

theorem classic_grid_consistent:
  assumes "3 \<le> rws" "3 \<le> cls"
  shows "\<forall>r<rws. \<forall>c<cls.
        (c + 1 < cls \<longrightarrow>
           rightE (fst (buildPattern rws cls g) ! r ! c) =
             (\<not> leftE (fst (buildPattern rws cls g) ! r ! (c + 1)))) \<and>
        (r + 1 < rws \<longrightarrow>
           bottomE (fst (buildPattern rws cls g) ! r ! c) =
             (\<not> topE (fst (buildPattern rws cls g) ! (r + 1) ! c))) \<and>
        (r = 0 \<longrightarrow> \<not> topE (fst (buildPattern rws cls g) ! r ! c)) \<and>
        (c = cls - 1 \<longrightarrow> \<not> rightE (fst (buildPattern rws cls g) ! r ! c)) \<and>
        (r = rws - 1 \<longrightarrow> \<not> bottomE (fst (buildPattern rws cls g) ! r ! c)) \<and>
        (c = 0 \<longrightarrow> \<not> leftE (fst (buildPattern rws cls g) ! r ! c))"
proof -
  have "buildPattern rws cls g = (fst (buildPattern rws cls g), snd (buildPattern rws cls g))"
    by simp
  then have "consistent rws cls (fst (buildPattern rws cls g))"
    using buildPattern_props by blast
  then show ?thesis
    by (simp add: consistent_def boundaryFalse_def)
qed

theorem classic_grid_consistent_witness:
  "(3::nat) \<le> 3 \<and>
   fst (buildPattern 3 3 (\<lambda>n. if even n then 3 / 4 else 1 / 4, 0)) =
     [[\<lparr>topE = False, rightE = True, bottomE = False, leftE = False\<rparr>,
       \<lparr>topE = False, rightE = True, bottomE = False, leftE = False\<rparr>,
       \<lparr>topE = False, rightE = False, bottomE = False, leftE = False\<rparr>],
      [\<lparr>topE = True, rightE = True, bottomE = False, leftE = False\<rparr>,
       \<lparr>topE = True, rightE = False, bottomE = True, leftE = False\<rparr>,
       \<lparr>topE = True, rightE = False, bottomE = False, leftE = True\<rparr>],
      [\<lparr>topE = True, rightE = True, bottomE = False, leftE = False\<rparr>,
       \<lparr>topE = False, rightE = True, bottomE = False, leftE = False\<rparr>,
       \<lparr>topE = True, rightE = False, bottomE = False, leftE = False\<rparr>]] \<and>
   rightE (fst (buildPattern 3 3 (\<lambda>n. if even n then 3 / 4 else 1 / 4, 0)) ! 1 ! 1) = (\<not> leftE (fst (buildPattern 3 3 (\<lambda>n. if even n then 3 / 4 else 1 / 4, 0)) ! 1 ! 2)) \<and>
   bottomE (fst (buildPattern 3 3 (\<lambda>n. if even n then 3 / 4 else 1 / 4, 0)) ! 1 ! 1) = (\<not> topE (fst (buildPattern 3 3 (\<lambda>n. if even n then 3 / 4 else 1 / 4, 0)) ! 2 ! 1)) \<and>
   \<not> topE (fst (buildPattern 3 3 (\<lambda>n. if even n then 3 / 4 else 1 / 4, 0)) ! 0 ! 1) \<and>
   \<not> rightE (fst (buildPattern 3 3 (\<lambda>n. if even n then 3 / 4 else 1 / 4, 0)) ! 1 ! 2) \<and>
   \<not> bottomE (fst (buildPattern 3 3 (\<lambda>n. if even n then 3 / 4 else 1 / 4, 0)) ! 2 ! 1) \<and>
   \<not> leftE (fst (buildPattern 3 3 (\<lambda>n. if even n then 3 / 4 else 1 / 4, 0)) ! 1 ! 0)"
proof -
  have h: "(3::nat) \<le> 3"
    by simp
  have e: "fst (buildPattern 3 3 (\<lambda>n. if even n then 3 / 4 else 1 / 4, 0)) =
     [[\<lparr>topE = False, rightE = True, bottomE = False, leftE = False\<rparr>,
       \<lparr>topE = False, rightE = True, bottomE = False, leftE = False\<rparr>,
       \<lparr>topE = False, rightE = False, bottomE = False, leftE = False\<rparr>],
      [\<lparr>topE = True, rightE = True, bottomE = False, leftE = False\<rparr>,
       \<lparr>topE = True, rightE = False, bottomE = True, leftE = False\<rparr>,
       \<lparr>topE = True, rightE = False, bottomE = False, leftE = True\<rparr>],
      [\<lparr>topE = True, rightE = True, bottomE = False, leftE = False\<rparr>,
       \<lparr>topE = False, rightE = True, bottomE = False, leftE = False\<rparr>,
       \<lparr>topE = True, rightE = False, bottomE = False, leftE = False\<rparr>]]"
    by code_simp
  note t = classic_grid_consistent [OF h h, of "(\<lambda>n. if even n then 3 / 4 else 1 / 4, 0)", rule_format]
  have a: "rightE (fst (buildPattern 3 3 (\<lambda>n. if even n then 3 / 4 else 1 / 4, 0)) ! 1 ! 1) = (\<not> leftE (fst (buildPattern 3 3 (\<lambda>n. if even n then 3 / 4 else 1 / 4, 0)) ! 1 ! 2))"
    "bottomE (fst (buildPattern 3 3 (\<lambda>n. if even n then 3 / 4 else 1 / 4, 0)) ! 1 ! 1) = (\<not> topE (fst (buildPattern 3 3 (\<lambda>n. if even n then 3 / 4 else 1 / 4, 0)) ! 2 ! 1))"
    using t [of 1 1] by (simp_all add: numeral_2_eq_2)
  have b: "\<not> topE (fst (buildPattern 3 3 (\<lambda>n. if even n then 3 / 4 else 1 / 4, 0)) ! 0 ! 1)"
    using t [of 0 1] by simp
  have c: "\<not> rightE (fst (buildPattern 3 3 (\<lambda>n. if even n then 3 / 4 else 1 / 4, 0)) ! 1 ! 2)"
    using t [of 1 2] by simp
  have d: "\<not> bottomE (fst (buildPattern 3 3 (\<lambda>n. if even n then 3 / 4 else 1 / 4, 0)) ! 2 ! 1)"
    using t [of 2 1] by simp
  have f: "\<not> leftE (fst (buildPattern 3 3 (\<lambda>n. if even n then 3 / 4 else 1 / 4, 0)) ! 1 ! 0)"
    using t [of 1 0] by simp
  show ?thesis
    by (intro conjI, rule h, rule e, rule a(1), rule a(2), rule b, rule c, rule d, rule f)
qed




text \<open>
  Claim C8.  When the computed number of missing pieces is zero, the call returns, no
  hole is cut, and the missing canvas equals the complete canvas: the same size and the
  same calls in the same order.  This is the case for 3 rows, 3 columns and 10 percent,
  where \<open>floor (9 * 10 / 100) = 0\<close>.
\<close>

theorem no_missing_same_raster:
  assumes "rows st * columns st * missingPercentage st div 100 = 0"
  shows "\<exists>out g'. generatePuzzles ss img st cur g0 = Some (out, g') \<and>
           missingIndices out = [] \<and> missingCanvas out = completeCanvas out"
proof -
  have "fillMissing 0 (rows st * columns st) []
      (snd (buildPattern (rows st) (columns st) g0)) =
      Some ([], snd (buildPattern (rows st) (columns st) g0))"
    by (simp add: fillMissing_exit)
  then show ?thesis
    using assms by (simp add: generatePuzzles_Some Let_def)
qed

theorem no_missing_same_raster_witness:
  "(3::nat) * 3 * 10 div 100 = 0 \<and>
   (\<exists>out g'.
      generatePuzzles 1 \<lparr>imgWidth = 900, imgHeight = 600, imgSrc = ''photo''\<rparr>
        \<lparr>columns = 3, rows = 3, missingPercentage = 10, pieceStyle = Classic,
         borderColor = ''#000000'', outputQuality = High\<rparr>
        None (\<lambda>k. real (k mod 9) / 9, 0) = Some (out, g') \<and>
      missingIndices out = [] \<and> missingCanvas out = completeCanvas out)"
proof -
  have h: "rows \<lparr>columns = 3, rows = 3, missingPercentage = 10, pieceStyle = Classic,
         borderColor = ''#000000'', outputQuality = High\<rparr> *
      columns \<lparr>columns = 3, rows = 3, missingPercentage = 10, pieceStyle = Classic,
         borderColor = ''#000000'', outputQuality = High\<rparr> *
      missingPercentage \<lparr>columns = 3, rows = 3, missingPercentage = 10, pieceStyle = Classic,
         borderColor = ''#000000'', outputQuality = High\<rparr> div 100 = 0"
    by simp
  have "(3::nat) * 3 * 10 div 100 = 0"
    by simp
  then show ?thesis
    using no_missing_same_raster [OF h] by blast
qed

text \<open>
  Claim C10.  Within one generation call, for every index in the missing set: the index
  is \<open>row * columns + col\<close> for a cell \<open>(row, col)\<close> of the grid, and the calls on the missing
  canvas contain first the cut of that piece (save, \<open>destination-out\<close>, an outline,
  fill, restore) and later the stroke of the same outline.  The outline is the one of
  the cell rectangle of \<open>(row, col)\<close>, built for the classic style from the stored flags
  of that cell and for the abstract style from the seed
  \<open>usedShapeSeed + row * columns + col + 1\<close>.
\<close>

theorem cut_outline_is_stroked_outline:
  assumes "unitRange g0" "generatePuzzles ss img st cur g0 = Some (out, g')"
    "index \<in> set (missingIndices out)"
  shows "\<exists>row col outline pre mid post.
           row < rows st \<and> col < columns st \<and> index = int (row * columns st + col) \<and>
           commands (missingCanvas out) =
             pre @ ([Save, GlobalCompositeOperation ''destination-out''] @ outline @
                    [Fill, Restore]) @
             mid @ (outline @ [Stroke]) @ post \<and>
           outline =
             (let width = fst (scaleDimensions (outputQuality st) (real (imgWidth img))
                                 (real (imgHeight img)));
                  height = snd (scaleDimensions (outputQuality st) (real (imgWidth img))
                                  (real (imgHeight img)));
                  pieceWidth = binary64 (width / real (columns st));
                  pieceHeight = binary64 (height / real (rows st));
                  x = binary64 (real col * pieceWidth);
                  y = binary64 (real row * pieceHeight)
              in if pieceStyle st = Abstract
                 then drawAbstractPuzzlePiece x y pieceWidth pieceHeight
                        (usedSeed ss cur + real row * real (columns st) + real col + 1)
                 else drawRealisticPuzzlePiece width height x y pieceWidth pieceHeight
                        (piecePattern out ! row ! col))"
proof -
  define width where "width = fst (scaleDimensions (outputQuality st) (real (imgWidth img))
      (real (imgHeight img)))"
  define height where "height = snd (scaleDimensions (outputQuality st) (real (imgWidth img))
      (real (imgHeight img)))"
  define pw where "pw = binary64 (width / real (columns st))"
  define ph where "ph = binary64 (height / real (rows st))"
  define pat where "pat = fst (buildPattern (rows st) (columns st) g0)"
  define row where "row = nat (index div int (columns st))"
  define col where "col = nat (index mod int (columns st))"
  define outline where "outline =
      (if pieceStyle st = Abstract
       then drawAbstractPuzzlePiece (binary64 (real col * pw)) (binary64 (real row * ph)) pw ph
              (usedSeed ss cur + real row * real (columns st) + real col + 1)
       else drawRealisticPuzzlePiece width height (binary64 (real col * pw)) (binary64 (real row * ph)) pw ph
              (pat ! row ! col))"
  have rng: "0 \<le> index \<and> index < int (rows st * columns st)"
    using assms by (rule generated_missing_range)
  have "nat (index div int (columns st)) < rows st \<and>
      nat (index mod int (columns st)) < columns st \<and>
      index = int (nat (index div int (columns st)) * columns st +
                   nat (index mod int (columns st)))"
    using rng by (intro index_decode) blast+
  then have dec: "row < rows st" "col < columns st" "index = int (row * columns st + col)"
    unfolding row_def col_def by blast+
  have cmds: "commands (missingCanvas out) =
      DrawImage img 0 0 width height #
      concat (map (cutPiece st width height pw ph (usedSeed ss cur) pat) (missingIndices out)) @
      strokeSettings st @ strokePieces st width height pw ph (usedSeed ss cur) pat"
    and pp: "piecePattern out = pat"
    using assms(2)
    by (auto simp: generatePuzzles_Some Let_def width_def height_def pw_def ph_def pat_def)
  have cut: "cutPiece st width height pw ph (usedSeed ss cur) pat index =
      [Save, GlobalCompositeOperation ''destination-out''] @ outline @ [Fill, Restore]"
    by (simp add: cutPiece_def Let_def outline_def row_def col_def)
  have stroke: "strokePiece st width height pw ph (usedSeed ss cur) pat row col =
      outline @ [Stroke]"
    by (simp add: strokePiece_def Let_def outline_def)
  obtain a b where ab: "concat (map (cutPiece st width height pw ph (usedSeed ss cur) pat)
      (missingIndices out)) =
      a @ cutPiece st width height pw ph (usedSeed ss cur) pat index @ b"
    using concat_map_mem_split [OF assms(3)] by blast
  obtain c d where cd: "strokePieces st width height pw ph (usedSeed ss cur) pat =
      c @ strokePiece st width height pw ph (usedSeed ss cur) pat row col @ d"
    using strokePieces_split [OF dec(1,2)] by blast
  have "commands (missingCanvas out) =
      (DrawImage img 0 0 width height # a) @
      ([Save, GlobalCompositeOperation ''destination-out''] @ outline @ [Fill, Restore]) @
      (b @ strokeSettings st @ c) @ (outline @ [Stroke]) @ d"
    unfolding cmds ab cd cut stroke by simp
  moreover have "outline =
             (let width = fst (scaleDimensions (outputQuality st) (real (imgWidth img))
                                 (real (imgHeight img)));
                  height = snd (scaleDimensions (outputQuality st) (real (imgWidth img))
                                  (real (imgHeight img)));
                  pieceWidth = binary64 (width / real (columns st));
                  pieceHeight = binary64 (height / real (rows st));
                  x = binary64 (real col * pieceWidth);
                  y = binary64 (real row * pieceHeight)
              in if pieceStyle st = Abstract
                 then drawAbstractPuzzlePiece x y pieceWidth pieceHeight
                        (usedSeed ss cur + real row * real (columns st) + real col + 1)
                 else drawRealisticPuzzlePiece width height x y pieceWidth pieceHeight
                        (piecePattern out ! row ! col))"
    by (simp add: outline_def Let_def width_def height_def pw_def ph_def pp)
  ultimately show ?thesis
    using dec by blast
qed


theorem cut_outline_is_stroked_outline_witness:
  "unitRange (\<lambda>k. real (k mod 9) / 9, 0) \<and>
   (\<exists>out g'.
      generatePuzzles 1 \<lparr>imgWidth = 900, imgHeight = 600, imgSrc = ''photo''\<rparr>
        \<lparr>columns = 3, rows = 3, missingPercentage = 30, pieceStyle = Classic,
         borderColor = ''#000000'', outputQuality = High\<rparr>
        None (\<lambda>k. real (k mod 9) / 9, 0) = Some (out, g') \<and>
      6 \<in> set (missingIndices out) \<and>
      (\<exists>row col outline pre mid post.
         row < 3 \<and> col < 3 \<and> (6::int) = int (row * 3 + col) \<and>
         commands (missingCanvas out) =
           pre @ ([Save, GlobalCompositeOperation ''destination-out''] @ outline @
                  [Fill, Restore]) @
           mid @ (outline @ [Stroke]) @ post))"
proof -
  let ?st = "\<lparr>columns = 3, rows = 3, missingPercentage = 30, pieceStyle = Classic,
         borderColor = ''#000000'', outputQuality = High\<rparr>"
  have u: "unitRange (\<lambda>k. real (k mod 9) / 9, 0)"
    by (simp add: unitRange_def)
  have "snd (snd (buildPattern 3 3 (\<lambda>k. real (k mod 9) / 9, 0))) = 24"
    by code_simp
  then have g1: "snd (buildPattern 3 3 (\<lambda>k. real (k mod 9) / 9, 0)) = (\<lambda>k. real (k mod 9) / 9, 24)"
    using buildPattern_stream [of 3 3 "(\<lambda>k. real (k mod 9) / 9, 0)"] by (simp add: prod_eq_iff)
  have fm: "fillMissing 2 9 [] (\<lambda>k. real (k mod 9) / 9, 24) =
      Some ([6, 7], (\<lambda>k. real (k mod 9) / 9, 26))"
    by (simp add: fillMissing_step fillMissing_exit mathRandom_def setAdd_def)
  have "\<exists>out. generatePuzzles 1 \<lparr>imgWidth = 900, imgHeight = 600, imgSrc = ''photo''\<rparr> ?st None (\<lambda>k. real (k mod 9) / 9, 0) =
      Some (out, (\<lambda>k. real (k mod 9) / 9, 26)) \<and> missingIndices out = [6, 7]"
    by (simp add: generatePuzzles_Some g1 fm Let_def)
  then obtain out where o: "generatePuzzles 1 \<lparr>imgWidth = 900, imgHeight = 600, imgSrc = ''photo''\<rparr> ?st None (\<lambda>k. real (k mod 9) / 9, 0) =
      Some (out, (\<lambda>k. real (k mod 9) / 9, 26))" and m: "6 \<in> set (missingIndices out)"
    by auto
  obtain row col outline pre mid post where
    a: "row < rows ?st" and b: "col < columns ?st"
    and c: "(6::int) = int (row * columns ?st + col)"
    and d: "commands (missingCanvas out) =
       pre @ ([Save, GlobalCompositeOperation ''destination-out''] @ outline @
              [Fill, Restore]) @
       mid @ (outline @ [Stroke]) @ post"
    using cut_outline_is_stroked_outline [OF u o m] by blast
  have a': "row < 3"
    using a by simp
  have b': "col < 3"
    using b by simp
  have c': "(6::int) = int (row * 3 + col)"
    using c by simp
  from a' b' c' d have "\<exists>row col outline pre mid post.
         row < 3 \<and> col < 3 \<and> (6::int) = int (row * 3 + col) \<and>
         commands (missingCanvas out) =
           pre @ ([Save, GlobalCompositeOperation ''destination-out''] @ outline @
                  [Fill, Restore]) @
           mid @ (outline @ [Stroke]) @ post"
    by blast
  with u o m show ?thesis
    by blast
qed

text \<open>
  Claim C2.  For the abstract style the complete canvas is a function of the image, the
  configuration and the shape seed: two calls with the same image, the same
  configuration and the same seed argument return equal complete canvases, whatever the
  two random sources yield, provided the seed is passed and is not 0 or the two calls
  share the captured seed state.  Each outline on it is \<open>drawAbstractPuzzlePiece\<close> at the
  cell rectangle and the seed \<open>usedShapeSeed + row * columns + col + 1\<close>, a function of
  rectangle and seed alone.
\<close>

theorem abstract_complete_deterministic:
  assumes "pieceStyle st = Abstract"
    and "generatePuzzles ss1 img st cur g1 = Some (o1, g1')"
    and "generatePuzzles ss2 img st cur g2 = Some (o2, g2')"
    and "ss1 = ss2 \<or> (\<exists>s. cur = Some s \<and> s \<noteq> 0)"
  shows "completeCanvas o1 = completeCanvas o2 \<and>
         commands (completeCanvas o1) =
           (let width = fst (scaleDimensions (outputQuality st) (real (imgWidth img))
                               (real (imgHeight img)));
                height = snd (scaleDimensions (outputQuality st) (real (imgWidth img))
                                (real (imgHeight img)));
                pieceWidth = binary64 (width / real (columns st));
                pieceHeight = binary64 (height / real (rows st))
            in DrawImage img 0 0 width height # strokeSettings st @
               concat (map (\<lambda>row.
                 concat (map (\<lambda>col.
                   drawAbstractPuzzlePiece (binary64 (real col * pieceWidth))
                     (binary64 (real row * pieceHeight))
                     pieceWidth pieceHeight
                     (usedSeed ss1 cur + real row * real (columns st) + real col + 1) @
                   [Stroke])
                   [0..<columns st]))
                 [0..<rows st]))"
proof -
  have s: "usedSeed ss1 cur = usedSeed ss2 cur"
    using assms(4) by (auto simp: usedSeed_def)
  show ?thesis
    using assms(2,3)
    by (auto simp: generatePuzzles_Some Let_def strokePieces_abstract [OF assms(1)] s)
qed

theorem abstract_complete_deterministic_witness:
  "pieceStyle \<lparr>columns = 3, rows = 3, missingPercentage = 10, pieceStyle = Abstract,
      borderColor = ''#000000'', outputQuality = High\<rparr> = Abstract \<and>
   (\<exists>o1 g1' o2 g2'.
      generatePuzzles 5 \<lparr>imgWidth = 900, imgHeight = 600, imgSrc = ''photo''\<rparr>
        \<lparr>columns = 3, rows = 3, missingPercentage = 10, pieceStyle = Abstract,
         borderColor = ''#000000'', outputQuality = High\<rparr>
        (Some 42) (\<lambda>k. real (k mod 9) / 9, 0) = Some (o1, g1') \<and>
      generatePuzzles 7 \<lparr>imgWidth = 900, imgHeight = 600, imgSrc = ''photo''\<rparr>
        \<lparr>columns = 3, rows = 3, missingPercentage = 10, pieceStyle = Abstract,
         borderColor = ''#000000'', outputQuality = High\<rparr>
        (Some 42) (\<lambda>k. 1 / 2, 3) = Some (o2, g2') \<and>
      completeCanvas o1 = completeCanvas o2)"
proof -
  let ?st = "\<lparr>columns = 3, rows = 3, missingPercentage = 10, pieceStyle = Abstract,
      borderColor = ''#000000'', outputQuality = High\<rparr>"
  let ?img = "\<lparr>imgWidth = 900, imgHeight = 600, imgSrc = ''photo''\<rparr>"
  have a: "pieceStyle ?st = Abstract"
    by simp
  obtain o1 g1' where 1: "generatePuzzles 5 ?img ?st (Some 42) (\<lambda>k. real (k mod 9) / 9, 0) =
      Some (o1, g1')"
    by (simp add: generatePuzzles_Some fillMissing_exit)
  obtain o2 g2' where 2: "generatePuzzles 7 ?img ?st (Some 42) (\<lambda>k. 1 / 2, 3) =
      Some (o2, g2')"
    by (simp add: generatePuzzles_Some fillMissing_exit)
  have d: "(5::real) = 7 \<or> (\<exists>s::real. Some 42 = Some s \<and> s \<noteq> 0)"
    by simp
  have "completeCanvas o1 = completeCanvas o2"
    using abstract_complete_deterministic [OF a 1 2 d] by blast
  with a 1 2 show ?thesis
    by blast
qed





text \<open>
  Claim C6, as amended.  For every image whose sides are below \<open>2 ^ 32\<close> (they are
  \<^verbatim>\<open>unsigned long\<close> attributes of the image element) and every quality tier, the canvases
  of a returned call are not larger than the image in either dimension, and under Fast,
  Standard and High not larger than 800 x 600, 1280 x 720 and 1920 x 1080.  When the tier
  is not Original and the image exceeds a maximum, each side of the canvases is the
  exactly scaled side of the image, \<open>side * min (maxWidth / width) (maxHeight / height)\<close>,
  rounded down to a whole number, or one less than it when the exactly scaled side is
  itself a whole number.  The sides are truncated one by one, and the products are
  rounded, so the two sides are in general not multiplied by one common factor.
\<close>

theorem scaling_within_source_and_cap:
  assumes "generatePuzzles ss img st cur g0 = Some (out, g')"
    and "imgWidth img < 2 ^ 32" and "imgHeight img < 2 ^ 32"
  shows "canvasWidth (completeCanvas out) \<le> imgWidth img \<and>
         canvasHeight (completeCanvas out) \<le> imgHeight img \<and>
         canvasWidth (missingCanvas out) = canvasWidth (completeCanvas out) \<and>
         canvasHeight (missingCanvas out) = canvasHeight (completeCanvas out) \<and>
         (outputQuality st = Fast \<longrightarrow>
            canvasWidth (completeCanvas out) \<le> 800 \<and> canvasHeight (completeCanvas out) \<le> 600) \<and>
         (outputQuality st = Standard \<longrightarrow>
            canvasWidth (completeCanvas out) \<le> 1280 \<and> canvasHeight (completeCanvas out) \<le> 720) \<and>
         (outputQuality st = High \<longrightarrow>
            canvasWidth (completeCanvas out) \<le> 1920 \<and> canvasHeight (completeCanvas out) \<le> 1080) \<and>
         (\<forall>maxWidth maxHeight.
            qualitySettings (outputQuality st) = Some (maxWidth, maxHeight) \<and>
            (real (imgWidth img) > maxWidth \<or> real (imgHeight img) > maxHeight) \<and>
            0 < imgWidth img \<and> 0 < imgHeight img \<longrightarrow>
            (let scale = min (maxWidth / real (imgWidth img)) (maxHeight / real (imgHeight img))
             in (int (canvasWidth (completeCanvas out)) = \<lfloor>real (imgWidth img) * scale\<rfloor> \<or>
                 real (canvasWidth (completeCanvas out)) + 1 = real (imgWidth img) * scale) \<and>
                (int (canvasHeight (completeCanvas out)) = \<lfloor>real (imgHeight img) * scale\<rfloor> \<or>
                 real (canvasHeight (completeCanvas out)) + 1 = real (imgHeight img) * scale)))"
proof -
  let ?d = "scaleDimensions (outputQuality st) (real (imgWidth img)) (real (imgHeight img))"
  have cw: "canvasWidth (completeCanvas out) = canvasSize (fst ?d)"
    and ch: "canvasHeight (completeCanvas out) = canvasSize (snd ?d)"
    and mw: "canvasWidth (missingCanvas out) = canvasSize (fst ?d)"
    and mh: "canvasHeight (missingCanvas out) = canvasSize (snd ?d)"
    using assms(1) by (auto simp: generatePuzzles_Some Let_def)
  note b = scaleDimensions_canvas [OF assms(2,3), of "outputQuality st"]
  have 1: "canvasWidth (completeCanvas out) \<le> imgWidth img"
    "canvasHeight (completeCanvas out) \<le> imgHeight img"
    using b by (simp_all add: cw ch)
  have cap: "canvasWidth (completeCanvas out) \<le> a \<and> canvasHeight (completeCanvas out) \<le> b"
    if "qualitySettings (outputQuality st) = Some (real a, real b)" for a b
    using b that unfolding cw ch by blast
  have 2: "outputQuality st = Fast \<longrightarrow>
      canvasWidth (completeCanvas out) \<le> 800 \<and> canvasHeight (completeCanvas out) \<le> 600"
    using cap [of 800 600] by simp
  have 3: "outputQuality st = Standard \<longrightarrow>
      canvasWidth (completeCanvas out) \<le> 1280 \<and> canvasHeight (completeCanvas out) \<le> 720"
    using cap [of 1280 720] by simp
  have 4: "outputQuality st = High \<longrightarrow>
      canvasWidth (completeCanvas out) \<le> 1920 \<and> canvasHeight (completeCanvas out) \<le> 1080"
    using cap [of 1920 1080] by simp
  have 5: "\<forall>maxWidth maxHeight.
            qualitySettings (outputQuality st) = Some (maxWidth, maxHeight) \<and>
            (real (imgWidth img) > maxWidth \<or> real (imgHeight img) > maxHeight) \<and>
            0 < imgWidth img \<and> 0 < imgHeight img \<longrightarrow>
            (let scale = min (maxWidth / real (imgWidth img)) (maxHeight / real (imgHeight img))
             in (int (canvasWidth (completeCanvas out)) = \<lfloor>real (imgWidth img) * scale\<rfloor> \<or>
                 real (canvasWidth (completeCanvas out)) + 1 = real (imgWidth img) * scale) \<and>
                (int (canvasHeight (completeCanvas out)) = \<lfloor>real (imgHeight img) * scale\<rfloor> \<or>
                 real (canvasHeight (completeCanvas out)) + 1 = real (imgHeight img) * scale))"
  proof (intro allI impI)
    fix maxWidth maxHeight
    assume h: "qualitySettings (outputQuality st) = Some (maxWidth, maxHeight) \<and>
            (real (imgWidth img) > maxWidth \<or> real (imgHeight img) > maxHeight) \<and>
            0 < imgWidth img \<and> 0 < imgHeight img"
    have q: "qualitySettings (outputQuality st) = Some (maxWidth, maxHeight)"
      and big: "real (imgWidth img) > maxWidth \<or> real (imgHeight img) > maxHeight"
      and w0: "0 < imgWidth img" and h0: "0 < imgHeight img"
      using h by blast+
    show "let scale = min (maxWidth / real (imgWidth img)) (maxHeight / real (imgHeight img))
             in (int (canvasWidth (completeCanvas out)) = \<lfloor>real (imgWidth img) * scale\<rfloor> \<or>
                 real (canvasWidth (completeCanvas out)) + 1 = real (imgWidth img) * scale) \<and>
                (int (canvasHeight (completeCanvas out)) = \<lfloor>real (imgHeight img) * scale\<rfloor> \<or>
                 real (canvasHeight (completeCanvas out)) + 1 = real (imgHeight img) * scale)"
      unfolding Let_def cw ch
      by (rule scaleDimensions_floor [OF q big assms(2,3) w0 h0])
  qed
  show ?thesis
    using 1 2 3 4 5 by (simp add: cw ch mw mh)
qed

theorem scaling_within_source_and_cap_witness:
  "\<exists>out g'.
      generatePuzzles 1 \<lparr>imgWidth = 1078, imgHeight = 600, imgSrc = ''photo''\<rparr>
        \<lparr>columns = 4, rows = 3, missingPercentage = 25, pieceStyle = Classic,
         borderColor = ''#000000'', outputQuality = Fast\<rparr>
        None (\<lambda>k. real (k mod 12) / 12, 0) = Some (out, g') \<and>
      canvasWidth (completeCanvas out) = 799 \<and> canvasHeight (completeCanvas out) = 445 \<and>
      canvasWidth (missingCanvas out) = 799 \<and> canvasHeight (missingCanvas out) = 445 \<and>
      real (canvasWidth (completeCanvas out)) + 1 = 1078 * min (800 / 1078) (600 / 600) \<and>
      int (canvasHeight (completeCanvas out)) = \<lfloor>600 * min (800 / 1078) (600 / 600 :: real)\<rfloor>"
proof -
  let ?st = "\<lparr>columns = 4, rows = 3, missingPercentage = 25, pieceStyle = Classic,
         borderColor = ''#000000'', outputQuality = Fast\<rparr>"
  let ?img = "\<lparr>imgWidth = 1078, imgHeight = 600, imgSrc = ''photo''\<rparr>"
  have m1: "binary64 (800 / 1078) = real_of_int 6684377925596283 / 2 ^ 53"
    by (rule binary64_value) (simp_all add: roundEven_def)
  have m2: "binary64 (600 / 600) = real_of_int 4503599627370496 / 2 ^ 52"
    by (rule binary64_value) (simp_all add: roundEven_def)
  have mq: "minQuotient 800 1078 600 600 = 6684377925596283 / 9007199254740992"
    unfolding minQuotient_def m1 m2 by simp
  have p1: "binary64 (1078 * (6684377925596283 / 9007199254740992)) =
      real_of_int 7036874417766399 / 2 ^ 43"
    by (rule binary64_value) (simp_all add: roundEven_def)
  have p2: "binary64 (600 * (6684377925596283 / 9007199254740992)) =
      real_of_int 7833255381558144 / 2 ^ 44"
    by (rule binary64_value) (simp_all add: roundEven_def)
  have "scaleDimensions Fast 1078 600 =
      (binary64 (1078 * minQuotient 800 1078 600 600),
       binary64 (600 * minQuotient 800 1078 600 600))"
    by (rule scaleDimensions_scaled) simp_all
  then have sd: "scaleDimensions Fast 1078 600 =
      (7036874417766399 / 8796093022208, 61197307668423 / 137438953472)"
    unfolding mq p1 p2 by simp
  have "snd (snd (buildPattern 3 4 (\<lambda>k. real (k mod 12) / 12, 0))) = 34"
    by code_simp
  then have g1: "snd (buildPattern 3 4 (\<lambda>k. real (k mod 12) / 12, 0)) = (\<lambda>k. real (k mod 12) / 12, 34)"
    using buildPattern_stream [of 3 4 "(\<lambda>k. real (k mod 12) / 12, 0)"] by (simp add: prod_eq_iff)
  have fm: "fillMissing 3 12 [] (\<lambda>k. real (k mod 12) / 12, 34) =
      Some ([10, 11, 0], (\<lambda>k. real (k mod 12) / 12, 37))"
    by (simp add: fillMissing_step fillMissing_exit mathRandom_def setAdd_def)
  have "\<exists>out. generatePuzzles 1 ?img ?st None (\<lambda>k. real (k mod 12) / 12, 0) =
      Some (out, (\<lambda>k. real (k mod 12) / 12, 37)) \<and>
      canvasWidth (completeCanvas out) = 799"
    by (simp add: generatePuzzles_Some g1 fm Let_def sd canvasSize_def)
  then obtain out where o: "generatePuzzles 1 ?img ?st None (\<lambda>k. real (k mod 12) / 12, 0) =
      Some (out, (\<lambda>k. real (k mod 12) / 12, 37))"
    and cw: "canvasWidth (completeCanvas out) = 799"
    by blast
  have small: "imgWidth ?img < 2 ^ 32" "imgHeight ?img < 2 ^ 32"
    by simp_all
  note t = scaling_within_source_and_cap [OF o small]
  have eq: "canvasWidth (missingCanvas out) = canvasWidth (completeCanvas out)"
    "canvasHeight (missingCanvas out) = canvasHeight (completeCanvas out)"
    using t by blast+
  have "qualitySettings (outputQuality ?st) = Some (800, 600) \<and>
      (real (imgWidth ?img) > 800 \<or> real (imgHeight ?img) > 600) \<and>
      0 < imgWidth ?img \<and> 0 < imgHeight ?img"
    by simp
  then have "let scale = min (800 / real (imgWidth ?img)) (600 / real (imgHeight ?img))
      in (int (canvasWidth (completeCanvas out)) = \<lfloor>real (imgWidth ?img) * scale\<rfloor> \<or>
          real (canvasWidth (completeCanvas out)) + 1 = real (imgWidth ?img) * scale) \<and>
         (int (canvasHeight (completeCanvas out)) = \<lfloor>real (imgHeight ?img) * scale\<rfloor> \<or>
          real (canvasHeight (completeCanvas out)) + 1 = real (imgHeight ?img) * scale)"
    using t by blast
  then have "int (canvasHeight (completeCanvas out)) = \<lfloor>600 * min (800 / 1078) (600 / 600 :: real)\<rfloor> \<or>
      real (canvasHeight (completeCanvas out)) + 1 = 600 * min (800 / 1078) (600 / 600)"
    by (simp add: Let_def)
  moreover have f: "\<lfloor>600 * min (800 / 1078) (600 / 600 :: real)\<rfloor> = 445"
    by simp
  moreover have "real (canvasHeight (completeCanvas out)) + 1 \<noteq> 600 * min (800 / 1078) (600 / 600)"
  proof
    assume "real (canvasHeight (completeCanvas out)) + 1 = 600 * min (800 / 1078) (600 / 600)"
    then have "real (canvasHeight (completeCanvas out) + 1) * 539 = real 240000"
      by simp
    then have "(canvasHeight (completeCanvas out) + 1) * 539 = 240000"
      by (simp only: of_nat_mult [symmetric] of_nat_eq_iff of_nat_numeral)
    then have "539 dvd (240000::nat)"
      by (metis dvd_triv_right)
    then show False
      by simp
  qed
  ultimately have ch: "int (canvasHeight (completeCanvas out)) = 445"
    by simp
  then have ch': "canvasHeight (completeCanvas out) = 445"
    by simp
  have w1: "real (canvasWidth (completeCanvas out)) + 1 = 1078 * min (800 / 1078) (600 / 600)"
    unfolding cw by simp
  show ?thesis
    using o cw ch' eq w1 f by (intro exI [of _ out] exI [of _ "(\<lambda>k. real (k mod 12) / 12, 37)"]) simp
qed

text \<open>
  Claim C6, the counterexample.  An image of 1921 x 1080 pixels under High gives
  canvases of 1920 x 1079 pixels: the height is not the height of the image times
  \<open>min (1920 / 1921) (1080 / 1080)\<close>, and the ratio of the sides has changed.
\<close>

theorem scaling_aspect_ratio_counterexample:
  "\<exists>out g'.
      generatePuzzles 1 \<lparr>imgWidth = 1921, imgHeight = 1080, imgSrc = ''photo''\<rparr>
        \<lparr>columns = 4, rows = 3, missingPercentage = 25, pieceStyle = Classic,
         borderColor = ''#000000'', outputQuality = High\<rparr>
        None (\<lambda>k. real (k mod 12) / 12, 0) = Some (out, g') \<and>
      canvasWidth (completeCanvas out) = 1920 \<and> canvasHeight (completeCanvas out) = 1079 \<and>
      real (canvasHeight (completeCanvas out)) \<noteq> 1080 * min (1920 / 1921) (1080 / 1080) \<and>
      real (canvasWidth (completeCanvas out)) * 1080 \<noteq>
        real (canvasHeight (completeCanvas out)) * 1921"
proof -
  let ?st = "\<lparr>columns = 4, rows = 3, missingPercentage = 25, pieceStyle = Classic,
         borderColor = ''#000000'', outputQuality = High\<rparr>"
  let ?img = "\<lparr>imgWidth = 1921, imgHeight = 1080, imgSrc = ''photo''\<rparr>"
  have m1: "binary64 (1920 / 1921) = real_of_int 9002510447216400 / 2 ^ 53"
    by (rule binary64_value) (simp_all add: roundEven_def)
  have m2: "binary64 (1080 / 1080) = real_of_int 4503599627370496 / 2 ^ 52"
    by (rule binary64_value) (simp_all add: roundEven_def)
  have mq: "minQuotient 1920 1921 1080 1080 = 562656902951025 / 562949953421312"
    unfolding minQuotient_def m1 m2 by simp
  have p1: "binary64 (1921 * (562656902951025 / 562949953421312)) =
      real_of_int 8444249301319680 / 2 ^ 42"
    by (rule binary64_value) (simp_all add: roundEven_def)
  have p2: "binary64 (1080 * (562656902951025 / 562949953421312)) =
      real_of_int 4747417618649273 / 2 ^ 42"
    by (rule binary64_value) (simp_all add: roundEven_def)
  have "scaleDimensions High 1921 1080 =
      (binary64 (1921 * minQuotient 1920 1921 1080 1080),
       binary64 (1080 * minQuotient 1920 1921 1080 1080))"
    by (rule scaleDimensions_scaled) simp_all
  then have sd: "scaleDimensions High 1921 1080 = (1920, 4747417618649273 / 4398046511104)"
    unfolding mq p1 p2 by simp
  have "snd (snd (buildPattern 3 4 (\<lambda>k. real (k mod 12) / 12, 0))) = 34"
    by code_simp
  then have g1: "snd (buildPattern 3 4 (\<lambda>k. real (k mod 12) / 12, 0)) = (\<lambda>k. real (k mod 12) / 12, 34)"
    using buildPattern_stream [of 3 4 "(\<lambda>k. real (k mod 12) / 12, 0)"] by (simp add: prod_eq_iff)
  have fm: "fillMissing 3 12 [] (\<lambda>k. real (k mod 12) / 12, 34) =
      Some ([10, 11, 0], (\<lambda>k. real (k mod 12) / 12, 37))"
    by (simp add: fillMissing_step fillMissing_exit mathRandom_def setAdd_def)
  have "\<exists>out. generatePuzzles 1 ?img ?st None (\<lambda>k. real (k mod 12) / 12, 0) =
      Some (out, (\<lambda>k. real (k mod 12) / 12, 37)) \<and>
      canvasWidth (completeCanvas out) = 1920 \<and> canvasHeight (completeCanvas out) = 1079"
    by (simp add: generatePuzzles_Some g1 fm Let_def sd canvasSize_def)
  then obtain out where o: "generatePuzzles 1 ?img ?st None (\<lambda>k. real (k mod 12) / 12, 0) =
      Some (out, (\<lambda>k. real (k mod 12) / 12, 37))"
    and c: "canvasWidth (completeCanvas out) = 1920" "canvasHeight (completeCanvas out) = 1079"
    by blast
  have "real (canvasHeight (completeCanvas out)) \<noteq> 1080 * min (1920 / 1921) (1080 / 1080)"
    "real (canvasWidth (completeCanvas out)) * 1080 \<noteq>
        real (canvasHeight (completeCanvas out)) * 1921"
    unfolding c by simp_all
  then show ?thesis
    using o c by blast
qed

text \<open>
  Claim C9.  The right side of the last column is not always straight.  For an image of
  1024 x 768 pixels cut into 6 columns and 3 rows (tier High, so the image is not
  scaled), \<^verbatim>\<open>pieceWidth\<close> is the double nearest to \<open>1024 / 6\<close>, the last column starts at
  \<open>x = 5 * pieceWidth\<close>, and the rounded sum \<open>x + pieceWidth\<close> is \<open>1024 - 2 powi (- 43)\<close>,
  which is less than the width 1024.  The test \<^verbatim>\<open>!tabs.right && x + w < width\<close> of line
  288 therefore succeeds for the piece in row 0 and column 5, whose flag \<open>right\<close> is
  false, and its outline on the complete canvas has the blank bump of lines 289 to 294 on
  the border of the image.
\<close>

theorem last_column_border_not_straight:
  "\<exists>out g' a b.
     generatePuzzles 1 \<lparr>imgWidth = 1024, imgHeight = 768, imgSrc = ''photo''\<rparr>
       \<lparr>columns = 6, rows = 3, missingPercentage = 10, pieceStyle = Classic,
        borderColor = ''#000000'', outputQuality = High\<rparr>
       None (\<lambda>k. real (k mod 18) / 18, 0) = Some (out, g') \<and>
     rightE (piecePattern out ! 0 ! 5) = False \<and>
     (let pieceWidth = binary64 (1024 / 6);
          pieceHeight = binary64 (768 / 3);
          x = binary64 (5 * pieceWidth);
          tabSize = min pieceWidth pieceHeight * 0.2;
          tabRadius = tabSize * 0.8;
          midY = 0 + pieceHeight / 2
      in binary64 (x + pieceWidth) < 1024 \<and>
         commands (completeCanvas out) =
           a @
           (BeginPath # MoveTo x 0 #
            topEdge x 0 pieceWidth pieceHeight (piecePattern out ! 0 ! 5) @
            [LineTo (x + pieceWidth) (midY - tabSize * 0.6),
             QuadraticCurveTo (x + pieceWidth - tabRadius * 0.3) (midY - tabSize * 0.4)
               (x + pieceWidth - tabRadius) (midY - tabSize * 0.3),
             QuadraticCurveTo (x + pieceWidth - tabRadius * 1.2) midY
               (x + pieceWidth - tabRadius) (midY + tabSize * 0.3),
             QuadraticCurveTo (x + pieceWidth - tabRadius * 0.3) (midY + tabSize * 0.4)
               (x + pieceWidth) (midY + tabSize * 0.6),
             LineTo (x + pieceWidth) (0 + pieceHeight)] @
            bottomEdge 768 x 0 pieceWidth pieceHeight (piecePattern out ! 0 ! 5) @
            leftEdge x 0 pieceWidth pieceHeight (piecePattern out ! 0 ! 5) @
            [ClosePath, Stroke]) @
           b)"
proof -
  let ?st = "\<lparr>columns = 6, rows = 3, missingPercentage = 10, pieceStyle = Classic,
        borderColor = ''#000000'', outputQuality = High\<rparr>"
  let ?img = "\<lparr>imgWidth = 1024, imgHeight = 768, imgSrc = ''photo''\<rparr>"
  let ?g = "(\<lambda>k. real (k mod 18) / 18, 0 :: nat)"
  define pw where "pw = binary64 (1024 / 6)"
  define ph where "ph = binary64 (768 / 3)"
  define x where "x = binary64 (5 * pw)"
  define pat where "pat = fst (buildPattern 3 6 ?g)"
  have sd: "scaleDimensions High 1024 768 = (1024, 768)"
    by (simp add: scaleDimensions_def)
  have "snd (snd (buildPattern 3 6 ?g)) = 54"
    by code_simp
  then have g1: "snd (buildPattern 3 6 ?g) = (\<lambda>k. real (k mod 18) / 18, 54)"
    using buildPattern_stream [of 3 6 ?g] by (simp add: prod_eq_iff)
  have fm: "fillMissing (Suc 0) 18 [] (\<lambda>k. real (k mod 18) / 18, 54) =
      Some ([0], (\<lambda>k. real (k mod 18) / 18, 55))"
    by (simp add: fillMissing_step fillMissing_exit mathRandom_def setAdd_def)
  have pwn: "binary64 (512 / 3) = pw" and phn: "binary64 256 = ph"
    by (simp_all add: pw_def ph_def)
  have "\<exists>out. generatePuzzles 1 ?img ?st None ?g = Some (out, (\<lambda>k. real (k mod 18) / 18, 55)) \<and>
      piecePattern out = pat \<and>
      commands (completeCanvas out) =
        DrawImage ?img 0 0 1024 768 # strokeSettings ?st @ strokePieces ?st 1024 768 pw ph 1 pat"
    by (simp add: generatePuzzles_Some g1 fm Let_def sd pwn phn pat_def usedSeed_def)
  then obtain out where o: "generatePuzzles 1 ?img ?st None ?g =
      Some (out, (\<lambda>k. real (k mod 18) / 18, 55))"
    and pp: "piecePattern out = pat"
    and cmds: "commands (completeCanvas out) =
        DrawImage ?img 0 0 1024 768 # strokeSettings ?st @ strokePieces ?st 1024 768 pw ph 1 pat"
    by blast
  obtain g2 where bp: "buildPattern 3 6 ?g = (pat, g2)"
    unfolding pat_def by (cases "buildPattern 3 6 ?g") simp
  have "consistent 3 6 pat"
    using buildPattern_props [OF bp] by simp
  then have "boundaryFalse 3 6 0 5 (pat ! 0 ! 5)"
    by (simp add: consistent_def)
  then have r: "\<not> rightE (pat ! 0 ! 5)"
    by (simp add: boundaryFalse_def)
  have s: "binary64 (x + pw) < 1024"
    unfolding x_def pw_def by (rule last_column_sum)
  obtain a0 b0 where sp: "strokePieces ?st 1024 768 pw ph 1 pat =
      a0 @ strokePiece ?st 1024 768 pw ph 1 pat 0 5 @ b0"
    using strokePieces_split [of 0 ?st 5 1024 768 pw ph 1 pat] by auto
  have piece: "strokePiece ?st 1024 768 pw ph 1 pat 0 5 =
      drawRealisticPuzzlePiece 1024 768 x 0 pw ph (pat ! 0 ! 5) @ [Stroke]"
    by (simp add: strokePiece_classic x_def binary64_zero)
  have outline: "drawRealisticPuzzlePiece 1024 768 x 0 pw ph (pat ! 0 ! 5) @ [Stroke] =
      BeginPath # MoveTo x 0 # topEdge x 0 pw ph (pat ! 0 ! 5) @
      (let tabSize = min pw ph * 0.2;
           tabRadius = tabSize * 0.8;
           midY = 0 + ph / 2
       in [LineTo (x + pw) (midY - tabSize * 0.6),
           QuadraticCurveTo (x + pw - tabRadius * 0.3) (midY - tabSize * 0.4)
             (x + pw - tabRadius) (midY - tabSize * 0.3),
           QuadraticCurveTo (x + pw - tabRadius * 1.2) midY
             (x + pw - tabRadius) (midY + tabSize * 0.3),
           QuadraticCurveTo (x + pw - tabRadius * 0.3) (midY + tabSize * 0.4)
             (x + pw) (midY + tabSize * 0.6),
           LineTo (x + pw) (0 + ph)]) @
      bottomEdge 768 x 0 pw ph (pat ! 0 ! 5) @ leftEdge x 0 pw ph (pat ! 0 ! 5) @
      [ClosePath, Stroke]"
    unfolding drawRealisticPuzzlePiece_def rightEdge_blank [OF r s] by simp
  have c: "commands (completeCanvas out) =
      (DrawImage ?img 0 0 1024 768 # strokeSettings ?st @ a0) @
      (drawRealisticPuzzlePiece 1024 768 x 0 pw ph (pat ! 0 ! 5) @ [Stroke]) @ b0"
    unfolding cmds sp piece by simp
  show ?thesis
    apply (rule exI [of _ out])
    apply (rule exI [of _ "(\<lambda>k. real (k mod 18) / 18, 55)"])
    apply (rule exI [of _ "DrawImage ?img 0 0 1024 768 # strokeSettings ?st @ a0"])
    apply (rule exI [of _ b0])
    unfolding pp Let_def pw_def [symmetric] ph_def [symmetric] x_def [symmetric]
    using o r s c outline [unfolded Let_def]
    apply (intro conjI)
       apply assumption
      apply simp
     apply assumption
    apply (simp only:)
    done
qed


text \<open>
  Claim C5, as amended.  For a cell rectangle with \<open>w \<ge> 0\<close> and \<open>h \<ge> 0\<close>, every vertex
  of the outline, that is every element of the array \<open>points\<close>, lies in the rectangle
  \<open>[x - w * 0.1, x + w * 1.1] \<times> [y - h * 0.1, y + h * 1.1]\<close> with the bounds as the
  machine computes them; and every point of the emitted path is such a vertex or one of
  the kink points inserted before the vertices \<open>i \<ge> 1\<close> with
  \<open>random (i * 5 + 20) > 0.7\<close>.  The kink points are not clamped.
\<close>

theorem abstract_path_within_halo:
  assumes "0 \<le> w" "0 \<le> h"
  shows "(\<forall>p\<in>set (abstractPoints x y w h seed). inClamp x y w h p) \<and>
         (\<forall>p\<in>set (pathPoints (drawAbstractPuzzlePiece x y w h seed)).
            p \<in> set (abstractPoints x y w h seed) \<or>
            (\<exists>i. 1 \<le> i \<and> i < length (abstractPoints x y w h seed) \<and>
                 0.7 < random' seed (i * 5 + 20) \<and>
                 p = kinkPoint w h seed (abstractPoints x y w h seed) i))"
proof (intro conjI ballI)
  fix p
  assume "p \<in> set (abstractPoints x y w h seed)"
  then show "inClamp x y w h p"
    using assms by (intro abstractPoints_inClamp)
next
  fix p
  assume p: "p \<in> set (pathPoints (drawAbstractPuzzlePiece x y w h seed))"
  define points where "points = abstractPoints x y w h seed"
  from p consider i where "i < length points" "p = points ! i"
    | i where "1 \<le> i" "i < length points" "0.7 < random' seed (i * 5 + 20)"
        "p = kinkPoint w h seed points i"
    unfolding pathPoints_drawAbstract Let_def points_def [symmetric]
    by (auto split: if_splits)
  then show "p \<in> set (abstractPoints x y w h seed) \<or>
           (\<exists>i. 1 \<le> i \<and> i < length (abstractPoints x y w h seed) \<and>
                0.7 < random' seed (i * 5 + 20) \<and>
                p = kinkPoint w h seed (abstractPoints x y w h seed) i)"
  proof cases
    case 1
    then have "p \<in> set points"
      by simp
    then show ?thesis
      unfolding points_def by (rule disjI1)
  next
    case 2
    then show ?thesis
      unfolding points_def by blast
  qed
qed

theorem abstract_path_within_halo_witness:
  "(0::real) \<le> 300 \<and> (0::real) \<le> 200 \<and>
   abstractPoints 0 0 300 200 666 ! 0 \<in> set (abstractPoints 0 0 300 200 666) \<and>
   inClamp 0 0 300 200 (abstractPoints 0 0 300 200 666 ! 0) \<and>
   kinkPoint 300 200 666 (abstractPoints 0 0 300 200 666) 1 \<in>
     set (pathPoints (drawAbstractPuzzlePiece 0 0 300 200 666)) \<and>
   (kinkPoint 300 200 666 (abstractPoints 0 0 300 200 666) 1 \<in>
      set (abstractPoints 0 0 300 200 666) \<or>
    (\<exists>i. 1 \<le> i \<and> i < length (abstractPoints 0 0 300 200 666) \<and>
         0.7 < random' 666 (i * 5 + 20) \<and>
         kinkPoint 300 200 666 (abstractPoints 0 0 300 200 666) 1 =
           kinkPoint 300 200 666 (abstractPoints 0 0 300 200 666) i))"
proof -
  have m: "abstractPoints 0 0 300 200 666 ! 0 \<in> set (abstractPoints 0 0 300 200 666)"
    by (intro nth_mem) (simp add: points_666 del: upt_Suc)
  have h: "(0::real) \<le> 300" "(0::real) \<le> 200"
    by simp_all
  note t = abstract_path_within_halo [OF h, of 0 0 666]
  have 1: "inClamp 0 0 300 200 (abstractPoints 0 0 300 200 666 ! 0)"
    using t m by blast
  have 2: "kinkPoint 300 200 666 (abstractPoints 0 0 300 200 666) 1 \<in>
      set (abstractPoints 0 0 300 200 666) \<or>
    (\<exists>i. 1 \<le> i \<and> i < length (abstractPoints 0 0 300 200 666) \<and>
         0.7 < random' 666 (i * 5 + 20) \<and>
         kinkPoint 300 200 666 (abstractPoints 0 0 300 200 666) 1 =
           kinkPoint 300 200 666 (abstractPoints 0 0 300 200 666) i)"
    using t kink1_666_drawn by blast
  show ?thesis
    using h m 1 2 kink1_666_drawn by blast
qed

text \<open>
  Claim C5, the counterexample.  For the cell rectangle \<open>(0, 0, 300, 200)\<close> and the seed
  666 (the piece in row 0 and column 0 of a 900 x 600 image cut 3 x 3, with shape seed
  665) the kink point before the vertex 1 is drawn, and its second coordinate is below
  \<open>- 28\<close>, while the halo ends at \<open>y - 0.1 * h = - 20\<close>.
\<close>

theorem kink_outside_halo_counterexample:
  "\<exists>p. p \<in> set (pathPoints (drawAbstractPuzzlePiece 0 0 300 200 666)) \<and>
       snd p < - 28 \<and> \<not> inHalo 0 0 300 200 p \<and> \<not> inClamp 0 0 300 200 p"
proof (intro exI conjI)
  show "kinkPoint 300 200 666 (abstractPoints 0 0 300 200 666) 1 \<in>
     set (pathPoints (drawAbstractPuzzlePiece 0 0 300 200 666))"
    by (rule kink1_666_drawn)
  show "snd (kinkPoint 300 200 666 (abstractPoints 0 0 300 200 666) 1) < - 28"
    by (rule kink1_666)
  show "\<not> inHalo 0 0 300 200 (kinkPoint 300 200 666 (abstractPoints 0 0 300 200 666) 1)"
    using kink1_666 by (simp add: inHalo_def)
  show "\<not> inClamp 0 0 300 200 (kinkPoint 300 200 666 (abstractPoints 0 0 300 200 666) 1)"
    using kink1_666 by (simp add: inClamp_def haloMin_0_200)
qed

end
